theory Spec2Isabelle
  imports Main "HOL-Library.Sublist"
begin

section \<open>Text\<close>

text \<open>
  A Python \<^verbatim>\<open>str\<close> is a sequence of Unicode code points; a code point is a natural
  number here, so that \<^verbatim>\<open>str.strip\<close> can be modelled with Python's own whitespace
  table. \<open>py\<close> embeds an ASCII literal.
\<close>

type_synonym pystr = "nat list"

definition py :: "string \<Rightarrow> pystr" where
  "py s = map of_char s"

text \<open>
  The characters \<^verbatim>\<open>str.strip()\<close> removes (those with \<^verbatim>\<open>str.isspace\<close>):
  U+0009..U+000D, U+001C..U+0020, U+0085, U+00A0, U+1680, U+2000..U+200A, U+2028,
  U+2029, U+202F, U+205F, U+3000.
\<close>

definition is_space :: "nat \<Rightarrow> bool" where
  "is_space c \<longleftrightarrow>
     (9 \<le> c \<and> c \<le> 13) \<or> (28 \<le> c \<and> c \<le> 32) \<or> c = 133 \<or> c = 160 \<or> c = 5760 \<or>
     (8192 \<le> c \<and> c \<le> 8202) \<or> c = 8232 \<or> c = 8233 \<or> c = 8239 \<or> c = 8287 \<or> c = 12288"

definition strip :: "pystr \<Rightarrow> pystr" where
  "strip t = rev (dropWhile is_space (rev (dropWhile is_space t)))"

text \<open>\<^verbatim>\<open>sep.join(xs)\<close>\<close>

fun join :: "pystr \<Rightarrow> pystr list \<Rightarrow> pystr" where
  "join sep [] = []"
| "join sep [x] = x"
| "join sep (x # y # ys) = x @ sep @ join sep (y # ys)"

section \<open>External collaborators\<close>

text \<open>
  The translation backend and the summarization model are services outside the
  repository. Every call to one of them is recorded, with its argument and its outcome,
  in the \<open>world\<close>: the chronological list of the backend calls made so far. A backend's
  answer may depend on the calls before it (a network service may fail on one call and
  succeed on the next), so each backend is a function of the world and its argument.
  A raised exception is \<open>Inl\<close>.
\<close>

datatype py_exception = PyException string

datatype event =
    TranslateCall pystr "py_exception + pystr"
  | SummarizeCall "pystr list" "py_exception + pystr list"

type_synonym world = "event list"

text \<open>
  \<open>sent_tokenize\<close> and \<open>word_tokenize\<close> are NLTK's, \<open>tokenize\<close> is
  \<^verbatim>\<open>TOKENIZER.tokenize\<close> (the BART tokenizer), \<open>is_alpha\<close> is the Unicode table behind
  \<^verbatim>\<open>str.isalpha\<close>: deterministic functions of their argument.
  \<open>translator\<close> is \<^verbatim>\<open>_trans.translate\<close>; \<open>summarizer\<close> is \<^verbatim>\<open>SUMMARIZER\<close> called with
  the fixed generation parameters of \<^verbatim>\<open>batch_summarize\<close>, giving the
  \<^verbatim>\<open>summary_text\<close> of each output. A result that is \<^verbatim>\<open>None\<close> is the empty
  string of the model: the program only tests such results for truth.
\<close>

record env =
  sent_tokenize :: "pystr \<Rightarrow> pystr list"
  word_tokenize :: "pystr \<Rightarrow> pystr list"
  tokenize :: "pystr \<Rightarrow> pystr list"
  is_alpha :: "nat \<Rightarrow> bool"
  translator :: "world \<Rightarrow> pystr \<Rightarrow> py_exception + pystr"
  summarizer :: "world \<Rightarrow> pystr list \<Rightarrow> py_exception + pystr list"

text \<open>\<^verbatim>\<open>w.isalpha()\<close>: at least one character, and all of them alphabetic.\<close>

definition isalpha :: "env \<Rightarrow> pystr \<Rightarrow> bool" where
  "isalpha E w \<longleftrightarrow> w \<noteq> [] \<and> list_all (is_alpha E) w"

section \<open>Parameters\<close>

definition MIN_WORDS :: nat where "MIN_WORDS = 40"
definition MAX_INPUT_TOKENS :: nat where "MAX_INPUT_TOKENS = 1024"
definition BATCH_SIZE :: nat where "BATCH_SIZE = 4"
definition YAHEI :: pystr where "YAHEI = py ''Microsoft YaHei''"

section \<open>Translation\<close>

text \<open>
  \<^verbatim>\<open>translate_en2zh\<close>: blank text gives the empty string without a backend call; an
  exception of the backend is caught and the text is returned as it came.
\<close>

definition translate_en2zh :: "env \<Rightarrow> world \<Rightarrow> pystr \<Rightarrow> pystr \<times> world" where
  "translate_en2zh E w text =
     (if strip text = [] then ([], w)
      else (case translator E w text of
              Inr zh \<Rightarrow> (zh, w @ [TranslateCall text (Inr zh)])
            | Inl e \<Rightarrow> (text, w @ [TranslateCall text (Inl e)])))"

section \<open>Sentence-level truncation\<close>

text \<open>
  The loop of \<^verbatim>\<open>truncate_text_by_sentences\<close> over the sentences still to visit, with
  the running count \<open>cur\<close> and the sentences \<open>kept\<close> so far; \<^verbatim>\<open>break\<close> returns \<open>kept\<close>.
\<close>

fun keep_loop :: "env \<Rightarrow> nat \<Rightarrow> pystr list \<Rightarrow> nat \<Rightarrow> pystr list \<Rightarrow> pystr list" where
  "keep_loop E max_tokens [] cur kept = kept"
| "keep_loop E max_tokens (s # sents) cur kept =
     (let tl = length (tokenize E s) in
      if cur + tl > max_tokens then kept
      else keep_loop E max_tokens sents (cur + tl) (kept @ [s]))"

definition truncate_text_by_sentences :: "env \<Rightarrow> pystr \<Rightarrow> nat \<Rightarrow> pystr" where
  "truncate_text_by_sentences E text max_tokens =
     (let sents = sent_tokenize E text;
          kept = keep_loop E max_tokens sents 0 []
      in if kept \<noteq> [] then join (py '' '') kept @ py ''...'' else text)"

section \<open>Candidates\<close>

record candidate =
  idx :: nat
  truncated :: pystr
  summary_zh :: pystr

text \<open>\<^verbatim>\<open>Candidate.__init__\<close>\<close>

definition Candidate :: "env \<Rightarrow> nat \<Rightarrow> pystr \<Rightarrow> candidate" where
  "Candidate E para_idx text =
     \<lparr> idx = para_idx,
       truncated = (if length (tokenize E text) > MAX_INPUT_TOKENS
                    then truncate_text_by_sentences E text MAX_INPUT_TOKENS
                    else text),
       summary_zh = [] \<rparr>"

section \<open>Documents\<close>

text \<open>
  A paragraph of the document is its list of runs; a run is its text and the
  formatting \<^verbatim>\<open>set_yahei\<close> writes (\<open>None\<close>: not set). \<^verbatim>\<open>para.text\<close> is the
  concatenation of the texts of the runs.
\<close>

record run =
  run_text :: pystr
  font_name :: "pystr option"
  east_asia :: "pystr option"
  font_size :: "nat option"
  bold :: "bool option"

record para =
  runs :: "run list"

definition para_text :: "para \<Rightarrow> pystr" where
  "para_text p = concat (map run_text (runs p))"

text \<open>
  One pass of the loop of \<^verbatim>\<open>collect_candidates\<close> over
  \<^verbatim>\<open>enumerate(paragraphs)\<close>, and the loop.
\<close>

definition collect_step :: "env \<Rightarrow> candidate list \<Rightarrow> nat \<times> para \<Rightarrow> candidate list" where
  "collect_step E cands ip =
     (case ip of (i, p) \<Rightarrow>
        let txt = strip (para_text p) in
        if txt = [] then cands
        else if length [w \<leftarrow> word_tokenize E txt. isalpha E w] > MIN_WORDS
             then cands @ [Candidate E i txt]
             else cands)"

definition collect_candidates :: "env \<Rightarrow> para list \<Rightarrow> candidate list" where
  "collect_candidates E paragraphs = foldl (collect_step E) [] (enumerate 0 paragraphs)"

section \<open>Batch summarization\<close>

text \<open>
  The inner loop of \<^verbatim>\<open>batch_summarize\<close>:
  \<^verbatim>\<open>for c, out in zip(cands[start:start + BATCH_SIZE], outs)\<close>. The candidates are
  objects mutated in place; the model updates the list at the position \<open>j\<close> of each
  candidate of the slice, and threads the world through the translations.
\<close>

fun write_back :: "env \<Rightarrow> (nat \<times> pystr) list \<Rightarrow> candidate list \<Rightarrow> world \<Rightarrow> candidate list \<times> world" where
  "write_back E [] cands w = (cands, w)"
| "write_back E ((j, out) # rest) cands w =
     (let (zh, w') = translate_en2zh E w (strip out)
      in write_back E rest (cands[j := (cands ! j)\<lparr>summary_zh := zh\<rparr>]) w')"

text \<open>
  The outer loop, \<^verbatim>\<open>for start in range(0, len(texts), BATCH_SIZE)\<close>, from \<open>start\<close>
  on. An exception of the summarizer ends the loop and is the result.
\<close>

function batch_loop ::
  "env \<Rightarrow> pystr list \<Rightarrow> nat \<Rightarrow> candidate list \<Rightarrow> world \<Rightarrow> (py_exception + candidate list) \<times> world" where
  "batch_loop E texts start cands w =
     (if start < length texts then
        (let chunk = take BATCH_SIZE (drop start texts) in
         case summarizer E w chunk of
           Inl e \<Rightarrow> (Inl e, w @ [SummarizeCall chunk (Inl e)])
         | Inr outs \<Rightarrow>
             (let slice = [start ..< min (start + BATCH_SIZE) (length cands)];
                  (cands', w') = write_back E (zip slice outs) cands
                                   (w @ [SummarizeCall chunk (Inr outs)])
              in batch_loop E texts (start + BATCH_SIZE) cands' w'))
      else (Inr cands, w))"
  by pat_completeness auto
termination
  by (relation "measure (\<lambda>(E, texts, start, cands, w). length texts - start)")
     (auto simp: BATCH_SIZE_def)

definition batch_summarize :: "env \<Rightarrow> candidate list \<Rightarrow> world \<Rightarrow> (py_exception + candidate list) \<times> world" where
  "batch_summarize E cands w =
     (if cands = [] then (Inr cands, w)
      else batch_loop E (map truncated cands) 0 cands w)"

section \<open>Merge\<close>

definition new_run :: "pystr \<Rightarrow> run" where
  "new_run text = \<lparr> run_text = text, font_name = None, east_asia = None,
                    font_size = None, bold = None \<rparr>"

definition set_yahei :: "run \<Rightarrow> bool \<Rightarrow> nat \<Rightarrow> run" where
  "set_yahei r b sz =
     r\<lparr> font_name := Some YAHEI, east_asia := Some YAHEI, font_size := Some sz, bold := Some b \<rparr>"

text \<open>\<^verbatim>\<open>r = para.add_run(text); set_yahei(r, b)\<close>, with the default size 11.\<close>

definition add_yahei_run :: "para \<Rightarrow> pystr \<Rightarrow> bool \<Rightarrow> para" where
  "add_yahei_run p text b = p\<lparr> runs := runs p @ [set_yahei (new_run text) b 11] \<rparr>"

text \<open>The label of a summary run: a line break, then U+6BB5 U+843D U+603B U+7ED3 U+FF1A.\<close>

definition SUMMARY_LABEL :: pystr where
  "SUMMARY_LABEL = [10, 27573, 33853, 24635, 32467, 65306]"

text \<open>\<^verbatim>\<open>{c.idx: c.summary_zh for c in cands}\<close>: a later candidate overwrites an earlier one.\<close>

definition idx2summary :: "candidate list \<Rightarrow> (nat \<rightharpoonup> pystr)" where
  "idx2summary cands = foldl (\<lambda>m c. m(idx c \<mapsto> summary_zh c)) Map.empty cands"

text \<open>The body of the second loop of \<^verbatim>\<open>process_docx\<close>, for paragraph \<open>i\<close>.\<close>

definition merge_para :: "env \<Rightarrow> (nat \<rightharpoonup> pystr) \<Rightarrow> world \<Rightarrow> nat \<times> para \<Rightarrow> para \<times> world" where
  "merge_para E summaries w ip =
     (case ip of (i, p) \<Rightarrow>
        let txt = strip (para_text p) in
        if txt = [] then (p, w)
        else
          let (zh, w') = translate_en2zh E w txt;
              p1 = (if zh \<noteq> [] then add_yahei_run p (10 # zh) False else p);
              p2 = (case summaries i of
                      Some s \<Rightarrow> if s \<noteq> [] then add_yahei_run p1 (SUMMARY_LABEL @ s) True else p1
                    | None \<Rightarrow> p1)
          in (p2, w'))"

fun merge_loop :: "env \<Rightarrow> (nat \<rightharpoonup> pystr) \<Rightarrow> world \<Rightarrow> (nat \<times> para) list \<Rightarrow> para list \<times> world" where
  "merge_loop E summaries w [] = ([], w)"
| "merge_loop E summaries w (ip # rest) =
     (let (p', w') = merge_para E summaries w ip;
          (ps', w'') = merge_loop E summaries w' rest
      in (p' # ps', w''))"

text \<open>
  \<^verbatim>\<open>process_docx\<close> on the paragraphs of the loaded document, up to the document that
  is saved. An exception of the summarizer leaves the function before anything is saved.
  The progress messages on the console are left out.
\<close>

definition process_docx :: "env \<Rightarrow> world \<Rightarrow> para list \<Rightarrow> (py_exception + para list) \<times> world" where
  "process_docx E w doc =
     (let cands = collect_candidates E doc in
      case batch_summarize E cands w of
        (Inl e, w') \<Rightarrow> (Inl e, w')
      | (Inr cands', w') \<Rightarrow>
          (let (doc', w'') = merge_loop E (idx2summary cands') w' (enumerate 0 doc)
           in (Inr doc', w'')))"

section \<open>Notions used in the statements\<close>

text \<open>The accumulated token count of a list of sentences, each tokenized on its own.\<close>

definition token_count :: "env \<Rightarrow> pystr list \<Rightarrow> nat" where
  "token_count E sents = sum_list (map (\<lambda>s. length (tokenize E s)) sents)"


text \<open>The number of purely alphabetic tokens of a text.\<close>

definition alpha_word_count :: "env \<Rightarrow> pystr \<Rightarrow> nat" where
  "alpha_word_count E txt = length [w \<leftarrow> word_tokenize E txt. isalpha E w]"

text \<open>
  A translation run (a line break and the translation, in the display font, not bold)
  and a summary run (the label and the summary, in the display font, bold).
\<close>

definition translation_run :: "pystr \<Rightarrow> run" where
  "translation_run zh =
     \<lparr> run_text = 10 # zh, font_name = Some YAHEI, east_asia = Some YAHEI,
       font_size = Some 11, bold = Some False \<rparr>"

definition summary_run :: "pystr \<Rightarrow> run" where
  "summary_run s =
     \<lparr> run_text = SUMMARY_LABEL @ s, font_name = Some YAHEI, east_asia = Some YAHEI,
       font_size = Some 11, bold = Some True \<rparr>"

text \<open>
  The runs the merge step appends to paragraph \<open>i\<close>: a translation run when the
  translation \<open>zh\<close> is not empty, and a summary run for a candidate of index \<open>i\<close> whose
  summary is not empty.
\<close>

definition translation_runs :: "pystr \<Rightarrow> run list" where
  "translation_runs zh = (if zh \<noteq> [] then [translation_run zh] else [])"

definition summary_runs :: "candidate list \<Rightarrow> nat \<Rightarrow> run list" where
  "summary_runs cands i =
     map (\<lambda>c. summary_run (summary_zh c)) [c \<leftarrow> cands. idx c = i \<and> summary_zh c \<noteq> []]"

text \<open>
  The world after the summaries \<open>outs\<close> have been stripped and translated one after the
  other, starting in the world \<open>w\<close>.
\<close>

fun after_translations :: "env \<Rightarrow> world \<Rightarrow> pystr list \<Rightarrow> world" where
  "after_translations E w [] = w"
| "after_translations E w (out # outs) =
     after_translations E (snd (translate_en2zh E w (strip out))) outs"

text \<open>
  The world inside a batch that started in the world \<open>wb\<close>: after the summarizer was
  called with \<open>chunk\<close> and answered \<open>outs\<close>, and the first \<open>k\<close> summaries were translated.
\<close>

definition batch_world :: "env \<Rightarrow> world \<Rightarrow> pystr list \<Rightarrow> pystr list \<Rightarrow> nat \<Rightarrow> world" where
  "batch_world E wb chunk outs k =
     after_translations E (wb @ [SummarizeCall chunk (Inr outs)]) (take k outs)"

text \<open>The arguments and the successful results of the summarizer calls of a world.\<close>

fun summarize_inputs :: "world \<Rightarrow> pystr list list" where
  "summarize_inputs [] = []"
| "summarize_inputs (SummarizeCall chunk r # w) = chunk # summarize_inputs w"
| "summarize_inputs (TranslateCall t r # w) = summarize_inputs w"

fun summarize_outputs :: "world \<Rightarrow> pystr list list" where
  "summarize_outputs [] = []"
| "summarize_outputs (SummarizeCall chunk (Inr outs) # w) = outs # summarize_outputs w"
| "summarize_outputs (e # w) = summarize_outputs w"

section \<open>A small environment for evaluation\<close>

text \<open>
  Concrete collaborators on which the functions above can be run: sentences end at a
  full stop (the spaces after it are dropped), words are separated by whitespace, every
  character is one token, and the letters are the ASCII letters. The summarizer answers
  with the first eight characters of each text.
\<close>

fun demo_sents :: "bool \<Rightarrow> pystr \<Rightarrow> pystr \<Rightarrow> pystr list" where
  "demo_sents skip cur [] = (if cur = [] then [] else [rev cur])"
| "demo_sents skip cur (c # cs) =
     (if skip \<and> c = 32 then demo_sents True cur cs
      else if c = 46 then rev (c # cur) # demo_sents True [] cs
      else demo_sents False (c # cur) cs)"

fun demo_words :: "pystr \<Rightarrow> pystr \<Rightarrow> pystr list" where
  "demo_words cur [] = (if cur = [] then [] else [rev cur])"
| "demo_words cur (c # cs) =
     (if is_space c then (if cur = [] then demo_words [] cs else rev cur # demo_words [] cs)
      else demo_words (c # cur) cs)"

definition demo_alpha :: "nat \<Rightarrow> bool" where
  "demo_alpha c \<longleftrightarrow> (65 \<le> c \<and> c \<le> 90) \<or> (97 \<le> c \<and> c \<le> 122)"

definition demo_env :: "(world \<Rightarrow> pystr \<Rightarrow> py_exception + pystr) \<Rightarrow> env" where
  "demo_env tr =
     \<lparr> sent_tokenize = demo_sents False [], word_tokenize = demo_words [],
       tokenize = map (\<lambda>c. [c]), is_alpha = demo_alpha, translator = tr,
       summarizer = (\<lambda>w chunk. Inr (map (take 8) chunk)) \<rparr>"

text \<open>Translators: one that answers, one that always raises, one that answers nothing.\<close>

definition tr_ok :: "world \<Rightarrow> pystr \<Rightarrow> py_exception + pystr" where
  "tr_ok w t = Inr (py ''zh:'' @ t)"

definition tr_fail :: "world \<Rightarrow> pystr \<Rightarrow> py_exception + pystr" where
  "tr_fail w t = Inl (PyException ''RequestError'')"


text \<open>A sentence of 512 characters, and a text of three such sentences.\<close>

definition long_sent :: pystr where
  "long_sent = replicate 511 97 @ [46]"

definition long_text :: pystr where
  "long_text = long_sent @ [32] @ long_sent @ [32] @ long_sent"

text \<open>A paragraph of one unformatted run.\<close>

definition plain :: "pystr \<Rightarrow> para" where
  "plain t = \<lparr> runs = [new_run t] \<rparr>"

text \<open>
  A text of \<open>n\<close> alphabetic words followed by a token that is not alphabetic, and a
  document of three paragraphs: 41 words, 40 words, and blanks only. The second document
  has the text of the first paragraph in two runs, one of them formatted.
\<close>

definition words :: "nat \<Rightarrow> pystr" where
  "words n = concat (replicate n (py ''word '')) @ py ''2024.''"

definition demo_doc :: "para list" where
  "demo_doc = [plain (words 41), plain (words 40), plain (py ''   '')]"

definition demo_doc_runs :: "para list" where
  "demo_doc_runs =
     [\<lparr> runs = [new_run (concat (replicate 41 (py ''word ''))),
                set_yahei (new_run (py ''2024.'')) True 11] \<rparr>,
      plain (words 40), plain (py ''   '')]"


text \<open>The same environment with a summarizer that answers blanks only.\<close>

definition blank_summaries :: "env \<Rightarrow> env" where
  "blank_summaries E = E\<lparr>summarizer := (\<lambda>w chunk. Inr (map (\<lambda>t. py ''  '') chunk))\<rparr>"

text \<open>
  The same environment with a tokenizer that gives one token to every character that is
  not whitespace, and a text of 1025 letters without a full stop.
\<close>

definition solid_tokens :: "env \<Rightarrow> env" where
  "solid_tokens E = E\<lparr>tokenize := (\<lambda>t. map (\<lambda>c. [c]) [c \<leftarrow> t. \<not> is_space c])\<rparr>"

definition unbroken_text :: pystr where
  "unbroken_text = replicate 1025 97"

section \<open>Stripping\<close>

lemma strip_empty_iff: "strip t = [] \<longleftrightarrow> (\<forall>c\<in>set t. is_space c)"
proof -
  have "strip t = [] \<longleftrightarrow> (\<forall>c\<in>set (dropWhile is_space t). is_space c)"
    by (simp add: strip_def dropWhile_eq_Nil_conv)
  also have "\<dots> \<longleftrightarrow> dropWhile is_space t = []"
  proof
    assume a: "\<forall>c\<in>set (dropWhile is_space t). is_space c"
    show "dropWhile is_space t = []"
    proof (rule ccontr)
      assume n: "dropWhile is_space t \<noteq> []"
      then have "\<not> is_space (hd (dropWhile is_space t))" by (rule hd_dropWhile)
      moreover have "hd (dropWhile is_space t) \<in> set (dropWhile is_space t)" using n by simp
      ultimately show False using a by blast
    qed
  qed (auto dest: set_dropWhileD)
  also have "\<dots> \<longleftrightarrow> (\<forall>c\<in>set t. is_space c)"
    by (simp add: dropWhile_eq_Nil_conv)
  finally show ?thesis .
qed

section \<open>Truncation keeps the longest prefix of sentences within the budget\<close>

lemma token_count_simps [simp]:
  "token_count E [] = 0"
  "token_count E (s # ss) = length (tokenize E s) + token_count E ss"
  "token_count E (xs @ ys) = token_count E xs + token_count E ys"
  by (simp_all add: token_count_def)

lemma token_count_take_mono:
  assumes "k \<le> k'"
  shows "token_count E (take k ss) \<le> token_count E (take k' ss)"
proof -
  have "take k' ss = take k ss @ take (k' - k) (drop k ss)"
    using assms by (metis le_add_diff_inverse take_add)
  then show ?thesis by simp
qed

text \<open>
  The loop returns what it had kept, followed by the first \<open>k\<close> sentences still to
  visit: those that fit, where the next one (if any) does not.
\<close>

lemma keep_loop_take:
  "cur \<le> mx \<Longrightarrow>
   \<exists>k \<le> length ss. keep_loop E mx ss cur kept = kept @ take k ss
      \<and> cur + token_count E (take k ss) \<le> mx
      \<and> (k < length ss \<longrightarrow> mx < cur + token_count E (take (Suc k) ss))"
proof (induction ss arbitrary: cur kept)
  case Nil
  then show ?case by simp
next
  case (Cons s ss)
  show ?case
  proof (cases "cur + length (tokenize E s) > mx")
    case True
    then have "keep_loop E mx (s # ss) cur kept = kept @ take 0 (s # ss)" by simp
    with True Cons.prems show ?thesis
      by (intro exI[of _ 0]) simp
  next
    case False
    then have le: "cur + length (tokenize E s) \<le> mx" by simp
    from Cons.IH[OF le, of "kept @ [s]"] obtain k where
      k: "k \<le> length ss"
      "keep_loop E mx ss (cur + length (tokenize E s)) (kept @ [s]) = (kept @ [s]) @ take k ss"
      "cur + length (tokenize E s) + token_count E (take k ss) \<le> mx"
      "k < length ss \<longrightarrow> mx < cur + length (tokenize E s) + token_count E (take (Suc k) ss)"
      by blast
    show ?thesis
      using False k by (intro exI[of _ "Suc k"]) (simp add: add.assoc)
  qed
qed

lemma truncate_prefix:
  "\<exists>k \<le> length (sent_tokenize E text).
      token_count E (take k (sent_tokenize E text)) \<le> max_tokens
    \<and> (k < length (sent_tokenize E text) \<longrightarrow>
         max_tokens < token_count E (take (Suc k) (sent_tokenize E text)))
    \<and> (\<forall>k' \<le> length (sent_tokenize E text).
         token_count E (take k' (sent_tokenize E text)) \<le> max_tokens \<longrightarrow> k' \<le> k)
    \<and> truncate_text_by_sentences E text max_tokens =
         (if k = 0 then text
          else join (py '' '') (take k (sent_tokenize E text)) @ py ''...'')"
proof -
  define sents where "sents = sent_tokenize E text"
  from keep_loop_take[of 0 max_tokens sents E "[]"] obtain k where
    k: "k \<le> length sents" "keep_loop E max_tokens sents 0 [] = take k sents"
       "token_count E (take k sents) \<le> max_tokens"
       "k < length sents \<longrightarrow> max_tokens < token_count E (take (Suc k) sents)"
    by auto
  have longest: "k' \<le> k"
    if "k' \<le> length sents" "token_count E (take k' sents) \<le> max_tokens" for k'
  proof (rule ccontr)
    assume "\<not> k' \<le> k"
    then have "Suc k \<le> k'" by simp
    then have "token_count E (take (Suc k) sents) \<le> token_count E (take k' sents)"
      by (rule token_count_take_mono)
    moreover have "k < length sents" using \<open>Suc k \<le> k'\<close> that(1) by simp
    ultimately show False using k(4) that(2) by simp
  qed
  have "take k sents = [] \<longleftrightarrow> k = 0" using k(1) by (cases sents) auto
  then have "truncate_text_by_sentences E text max_tokens =
      (if k = 0 then text else join (py '' '') (take k sents) @ py ''...'')"
    by (simp add: truncate_text_by_sentences_def Let_def k(2) flip: sents_def)
  with k longest show ?thesis unfolding sents_def by blast
qed

section \<open>The small environment on the long text\<close>

lemma demo_sents_letters:
  "demo_sents False cur (replicate n 97 @ rest) = demo_sents False (replicate n 97 @ cur) rest"
proof (induction n arbitrary: cur)
  case 0
  show ?case by simp
next
  case (Suc n)
  have "demo_sents False cur (replicate (Suc n) 97 @ rest) =
        demo_sents False (97 # cur) (replicate n 97 @ rest)" by simp
  also have "\<dots> = demo_sents False (replicate n 97 @ 97 # cur) rest" by (rule Suc.IH)
  also have "replicate n 97 @ 97 # cur = replicate (Suc n) 97 @ cur"
    by (simp add: replicate_append_same)
  finally show ?case .
qed

lemma demo_sents_long_sent:
  "demo_sents sk [] (long_sent @ rest) = long_sent # demo_sents True [] rest"
proof -
  have ls: "long_sent = 97 # replicate 510 97 @ [46]"
    by (simp add: long_sent_def flip: replicate_Suc)
  have r: "rev (46 # replicate 510 97 @ [97]) = 97 # replicate 510 97 @ [46]"
    by (simp add: replicate_append_same)
  have "demo_sents sk [] (long_sent @ rest) =
        demo_sents False [97] (replicate 510 97 @ 46 # rest)"
    unfolding ls by simp
  also have "\<dots> = demo_sents False (replicate 510 97 @ [97]) (46 # rest)"
    by (rule demo_sents_letters)
  also have "\<dots> = rev (46 # replicate 510 97 @ [97]) # demo_sents True [] rest"
    by simp
  finally show ?thesis unfolding r ls .
qed

lemma demo_sents_long_text:
  "sent_tokenize (demo_env tr) long_text = [long_sent, long_sent, long_sent]"
proof -
  have "demo_sents False [] long_text =
        long_sent # demo_sents True [] (32 # long_sent @ 32 # long_sent @ [])"
    unfolding long_text_def
    using demo_sents_long_sent[of False "32 # long_sent @ 32 # long_sent @ []"] by simp
  also have "demo_sents True [] (32 # long_sent @ 32 # long_sent @ []) =
        demo_sents True [] (long_sent @ 32 # long_sent @ [])"
    by simp
  also have "\<dots> = long_sent # demo_sents True [] (32 # long_sent @ [])"
    by (rule demo_sents_long_sent)
  also have "demo_sents True [] (32 # long_sent @ []) = demo_sents True [] (long_sent @ [])"
    by simp
  also have "\<dots> = long_sent # demo_sents True [] []" by (rule demo_sents_long_sent)
  finally show ?thesis by (simp add: demo_env_def)
qed

lemma demo_tokens_length: "length (tokenize (demo_env tr) t) = length t"
  by (simp add: demo_env_def)

lemma length_long_sent: "length long_sent = 512"
  by (simp add: long_sent_def)

lemma length_long_text: "length long_text = 1538"
  by (simp add: long_text_def length_long_sent)

lemma truncate_long_text:
  "truncate_text_by_sentences (demo_env tr) long_text MAX_INPUT_TOKENS =
     (long_sent @ [32] @ long_sent) @ py ''...''"
  by (simp add: truncate_text_by_sentences_def demo_sents_long_text demo_tokens_length
      length_long_sent MAX_INPUT_TOKENS_def py_def)


section \<open>Claims about truncation\<close>




text \<open>
  C4: for every text and budget (1024 by default), \<^verbatim>\<open>truncate_text_by_sentences\<close>
  keeps the first \<open>k\<close> sentences of the text, where \<open>k\<close> is the length of the longest
  prefix of the sentences whose accumulated per-sentence token counts stay within the
  budget: the prefix fits, the sentence after it (if there is one) would exceed the
  budget, and no longer prefix fits. Only whole sentences are kept. If \<open>k > 0\<close> the
  result is the kept sentences joined by single spaces, with the marker appended; if no
  sentence fits, the result is the original text.
\<close>

theorem truncate_keeps_longest_prefix:
  "\<exists>k \<le> length (sent_tokenize E text).
      token_count E (take k (sent_tokenize E text)) \<le> max_tokens
    \<and> (k < length (sent_tokenize E text) \<longrightarrow>
         max_tokens < token_count E (take (Suc k) (sent_tokenize E text)))
    \<and> (\<forall>k' \<le> length (sent_tokenize E text).
         token_count E (take k' (sent_tokenize E text)) \<le> max_tokens \<longrightarrow> k' \<le> k)
    \<and> truncate_text_by_sentences E text max_tokens =
         (if k = 0 then text
          else join (py '' '') (take k (sent_tokenize E text)) @ py ''...'')"
  by (rule truncate_prefix)

theorem truncate_keeps_longest_prefix_witness:
  "truncate_text_by_sentences (demo_env tr_ok) long_text MAX_INPUT_TOKENS =
     join (py '' '') [long_sent, long_sent] @ py ''...''"
proof -
  let ?E = "demo_env tr_ok"
  let ?sents = "[long_sent, long_sent, long_sent]"
  from truncate_keeps_longest_prefix[of ?E long_text MAX_INPUT_TOKENS] obtain k where
    k: "k \<le> length ?sents" "token_count ?E (take k ?sents) \<le> MAX_INPUT_TOKENS"
       "\<forall>k' \<le> length ?sents. token_count ?E (take k' ?sents) \<le> MAX_INPUT_TOKENS \<longrightarrow> k' \<le> k"
       "truncate_text_by_sentences ?E long_text MAX_INPUT_TOKENS =
          (if k = 0 then long_text else join (py '' '') (take k ?sents) @ py ''...'')"
    unfolding demo_sents_long_text by blast
  have "token_count ?E (take 2 ?sents) \<le> MAX_INPUT_TOKENS"
    by (simp add: demo_tokens_length length_long_sent MAX_INPUT_TOKENS_def)
  moreover have "(2::nat) \<le> length ?sents" by simp
  ultimately have "2 \<le> k" using k(3) by blast
  moreover have "k \<noteq> 3"
  proof
    assume "k = 3"
    with k(2) show False
      by (simp add: demo_tokens_length length_long_sent MAX_INPUT_TOKENS_def)
  qed
  moreover have "k \<le> 3" using k(1) by simp
  ultimately have "k = 2" by simp
  with k(4) show ?thesis by simp
qed

text \<open>
  C8: a Candidate built for a text of at most 1024 tokens carries that text untouched;
  the truncation is applied only to a text of more than 1024 tokens.
\<close>

theorem candidate_within_budget_untouched:
  "(length (tokenize E text) \<le> MAX_INPUT_TOKENS \<longrightarrow> truncated (Candidate E i text) = text)
   \<and> (length (tokenize E text) > MAX_INPUT_TOKENS \<longrightarrow>
        truncated (Candidate E i text) = truncate_text_by_sentences E text MAX_INPUT_TOKENS)"
  by (simp add: Candidate_def)

theorem candidate_within_budget_untouched_witness:
  "truncated (Candidate (demo_env tr_ok) 0 (py ''One. Two.'')) = py ''One. Two.''
   \<and> truncated (Candidate (demo_env tr_ok) 0 long_text) =
       (long_sent @ [32] @ long_sent) @ py ''...''"
proof -
  have small: "length (tokenize (demo_env tr_ok) (py ''One. Two.'')) \<le> MAX_INPUT_TOKENS"
    by (simp add: demo_tokens_length MAX_INPUT_TOKENS_def py_def)
  have big: "length (tokenize (demo_env tr_ok) long_text) > MAX_INPUT_TOKENS"
    by (simp add: demo_tokens_length length_long_text MAX_INPUT_TOKENS_def)
  from candidate_within_budget_untouched[of "demo_env tr_ok" "py ''One. Two.''" 0]
       candidate_within_budget_untouched[of "demo_env tr_ok" long_text 0]
       small big truncate_long_text[of tr_ok]
  show ?thesis by simp
qed

section \<open>Candidate selection\<close>

text \<open>The loop as a filter over the numbered paragraphs.\<close>

lemma collect_foldl:
  "foldl (collect_step E) acc (enumerate n ps) =
     acc @ map (\<lambda>(i, p). Candidate E i (strip (para_text p)))
            (filter (\<lambda>(i, p). strip (para_text p) \<noteq> []
                       \<and> MIN_WORDS < alpha_word_count E (strip (para_text p)))
               (enumerate n ps))"
  by (induction ps arbitrary: acc n)
     (simp_all add: collect_step_def alpha_word_count_def Let_def)

lemma collect_candidates_filter:
  "collect_candidates E ps =
     map (\<lambda>(i, p). Candidate E i (strip (para_text p)))
       (filter (\<lambda>(i, p). strip (para_text p) \<noteq> []
                  \<and> MIN_WORDS < alpha_word_count E (strip (para_text p)))
          (enumerate 0 ps))"
  by (simp add: collect_candidates_def collect_foldl)

lemma idx_collect_candidates:
  "map idx (collect_candidates E ps) =
     map fst (filter (\<lambda>(i, p). strip (para_text p) \<noteq> []
                        \<and> MIN_WORDS < alpha_word_count E (strip (para_text p)))
                (enumerate 0 ps))"
  by (simp add: collect_candidates_filter Candidate_def case_prod_unfold comp_def)

lemma sorted_idx_collect_candidates:
  "sorted_wrt (<) (map idx (collect_candidates E ps))"
proof -
  have "sorted_wrt (<) (map fst (enumerate 0 ps))"
    by (simp add: strict_sorted_iff)
  then show ?thesis
    unfolding idx_collect_candidates sorted_wrt_map by (rule sorted_wrt_filter)
qed

lemma idx_candidate_iff:
  assumes "i < length ps"
  shows "(\<exists>c \<in> set (collect_candidates E ps). idx c = i) \<longleftrightarrow>
         strip (para_text (ps ! i)) \<noteq> []
         \<and> MIN_WORDS < alpha_word_count E (strip (para_text (ps ! i)))"
proof -
  have "(\<exists>c \<in> set (collect_candidates E ps). idx c = i) \<longleftrightarrow>
        i \<in> set (map idx (collect_candidates E ps))"
    by auto
  also have "\<dots> \<longleftrightarrow> (\<exists>p. (i, p) \<in> set (enumerate 0 ps)
                 \<and> strip (para_text p) \<noteq> []
                 \<and> MIN_WORDS < alpha_word_count E (strip (para_text p)))"
    unfolding idx_collect_candidates by force
  also have "\<dots> \<longleftrightarrow> strip (para_text (ps ! i)) \<noteq> []
         \<and> MIN_WORDS < alpha_word_count E (strip (para_text (ps ! i)))"
    using assms by (auto simp: in_set_enumerate_eq)
  finally show ?thesis .
qed

lemma idx_collect_candidates_bound:
  "c \<in> set (collect_candidates E ps) \<Longrightarrow> idx c < length ps"
proof -
  assume "c \<in> set (collect_candidates E ps)"
  then have "idx c \<in> set (map idx (collect_candidates E ps))" by simp
  then show ?thesis
    unfolding idx_collect_candidates by (auto simp: in_set_enumerate_eq)
qed

lemma collect_candidates_texts:
  assumes "map para_text ps = map para_text ps'"
  shows "collect_candidates E ps = collect_candidates E ps'"
proof -
  have "foldl (collect_step E) acc (enumerate n ps) =
        foldl (collect_step E) acc (enumerate n ps')" for acc n
    using assms
  proof (induction ps arbitrary: ps' acc n)
    case Nil
    then show ?case by simp
  next
    case (Cons p ps)
    then obtain q qs where ps': "ps' = q # qs" by (cases ps') auto
    with Cons.prems have "para_text p = para_text q" "map para_text ps = map para_text qs"
      by simp_all
    then show ?case
      using Cons.IH[of qs] by (simp add: ps' collect_step_def)
  qed
  then show ?thesis by (simp add: collect_candidates_def)
qed

section \<open>The small environment on the demonstration document\<close>

lemma strip_id:
  assumes "t \<noteq> []" "\<not> is_space (hd t)" "\<not> is_space (last t)"
  shows "strip t = t"
proof -
  have "dropWhile is_space t = t"
    using assms(1,2) by (cases t) auto
  moreover have "dropWhile is_space (rev t) = rev t"
    using assms(1,3) by (cases "rev t") (auto simp: last_rev[symmetric] simp del: last_rev)
  ultimately show ?thesis by (simp add: strip_def)
qed

lemma demo_words_word:
  "demo_words [] (concat (replicate n (py ''word '')) @ rest) =
     replicate n (py ''word'') @ demo_words [] rest"
  by (induction n) (simp_all add: py_def is_space_def)

lemma demo_words_words:
  "demo_words [] (words n) = replicate n (py ''word'') @ [py ''2024.'']"
proof -
  have "demo_words [] (py ''2024.'') = [py ''2024.'']"
    by (simp add: py_def is_space_def)
  then show ?thesis by (simp add: words_def demo_words_word)
qed

lemma strip_words: "strip (words n) = words n"
proof (rule strip_id)
  show "words n \<noteq> []" by (simp add: words_def py_def)
  show "\<not> is_space (hd (words n))"
    by (cases n) (simp_all add: words_def py_def is_space_def)
  show "\<not> is_space (last (words n))"
    by (simp add: words_def py_def is_space_def)
qed

lemma alpha_word_count_words:
  "alpha_word_count (demo_env tr) (words n) = n"
proof -
  have a: "isalpha (demo_env tr) (py ''word'')"
    by (simp add: isalpha_def demo_env_def demo_alpha_def py_def)
  have b: "\<not> isalpha (demo_env tr) (py ''2024.'')"
    by (simp add: isalpha_def demo_env_def demo_alpha_def py_def)
  have "word_tokenize (demo_env tr) (words n) = replicate n (py ''word'') @ [py ''2024.'']"
    by (simp add: demo_env_def demo_words_words)
  then show ?thesis using a b by (simp add: alpha_word_count_def)
qed

lemma para_text_plain: "para_text (plain t) = t"
  by (simp add: para_text_def plain_def new_run_def)

lemma strip_blanks: "strip (py ''   '') = []"
  by (simp add: strip_empty_iff py_def is_space_def)

lemma idx_collect_candidates_upt:
  "map idx (collect_candidates E ps) =
     [i \<leftarrow> [0 ..< length ps]. strip (para_text (ps ! i)) \<noteq> []
        \<and> MIN_WORDS < alpha_word_count E (strip (para_text (ps ! i)))]"
  (is "?l = ?r")
proof (rule strict_sorted_equal)
  show "sorted_wrt (<) ?l" by (rule sorted_idx_collect_candidates)
  show "sorted_wrt (<) ?r" by (rule sorted_wrt_filter) (simp add: strict_sorted_iff)
  show "set ?l = set ?r"
  proof (rule set_eqI)
    fix i
    show "i \<in> set ?l \<longleftrightarrow> i \<in> set ?r"
    proof (cases "i < length ps")
      case True
      have "i \<in> set ?l \<longleftrightarrow> (\<exists>c \<in> set (collect_candidates E ps). idx c = i)" by auto
      with idx_candidate_iff[OF True, of E] True show ?thesis by simp
    next
      case False
      have "i \<notin> set ?l" using False idx_collect_candidates_bound[of _ E ps] by force
      with False show ?thesis by simp
    qed
  qed
qed

section \<open>Claims about candidate selection\<close>

text \<open>
  C3: for every paragraph sequence and every position \<open>i\<close> in it, \<^verbatim>\<open>collect_candidates\<close>
  produces a Candidate with index \<open>i\<close> exactly when the stripped text of paragraph \<open>i\<close> is
  non-empty and its count of purely alphabetic tokens is strictly greater than 40, and
  that Candidate is the one built from the stripped text. So a non-empty paragraph with
  exactly 41 alphabetic words yields a Candidate, one with exactly 40 does not, and an
  empty or whitespace-only paragraph never yields one.
\<close>

theorem collect_candidates_threshold:
  assumes "i < length ps"
  shows "((\<exists>c \<in> set (collect_candidates E ps). idx c = i) \<longleftrightarrow>
            strip (para_text (ps ! i)) \<noteq> []
            \<and> 40 < alpha_word_count E (strip (para_text (ps ! i))))
       \<and> (\<forall>c \<in> set (collect_candidates E ps).
            idx c = i \<longrightarrow> c = Candidate E i (strip (para_text (ps ! i))))
       \<and> (strip (para_text (ps ! i)) \<noteq> []
            \<and> alpha_word_count E (strip (para_text (ps ! i))) = 41
            \<longrightarrow> (\<exists>c \<in> set (collect_candidates E ps). idx c = i))
       \<and> (alpha_word_count E (strip (para_text (ps ! i))) = 40
            \<longrightarrow> \<not> (\<exists>c \<in> set (collect_candidates E ps). idx c = i))
       \<and> ((\<forall>ch \<in> set (para_text (ps ! i)). is_space ch)
            \<longrightarrow> \<not> (\<exists>c \<in> set (collect_candidates E ps). idx c = i))"
proof -
  note iff = idx_candidate_iff[OF assms, of E, unfolded MIN_WORDS_def]
  have which: "c = Candidate E i (strip (para_text (ps ! i)))"
    if "c \<in> set (collect_candidates E ps)" "idx c = i" for c
  proof -
    from that(1) obtain j p where jp: "(j, p) \<in> set (enumerate 0 ps)"
      "c = Candidate E j (strip (para_text p))"
      unfolding collect_candidates_filter by auto
    from jp(2) that(2) have "j = i" by (simp add: Candidate_def)
    with jp(1) have "p = ps ! i" by (simp add: in_set_enumerate_eq)
    with jp(2) \<open>j = i\<close> show ?thesis by simp
  qed
  have blank: "strip (para_text (ps ! i)) = []"
    if "\<forall>ch \<in> set (para_text (ps ! i)). is_space ch"
    using that by (simp add: strip_empty_iff)
  show ?thesis
    using iff which blank by (intro conjI) auto
qed

theorem collect_candidates_threshold_witness:
  "(\<exists>c \<in> set (collect_candidates (demo_env tr_ok) demo_doc). idx c = 0)
   \<and> \<not> (\<exists>c \<in> set (collect_candidates (demo_env tr_ok) demo_doc). idx c = 1)
   \<and> \<not> (\<exists>c \<in> set (collect_candidates (demo_env tr_ok) demo_doc). idx c = 2)"
proof -
  have l: "0 < length demo_doc" "1 < length demo_doc" "2 < length demo_doc"
    by (simp_all add: demo_doc_def)
  have p0: "para_text (demo_doc ! 0) = words 41"
    and p1: "para_text (demo_doc ! 1) = words 40"
    and p2: "para_text (demo_doc ! 2) = py ''   ''"
    by (simp_all add: demo_doc_def para_text_plain)
  have ne: "words 41 \<noteq> []" by (simp add: words_def py_def)
  have sp: "\<forall>ch \<in> set (py ''   ''). is_space ch" by (simp add: py_def is_space_def)
  from collect_candidates_threshold[OF l(1), of "demo_env tr_ok"]
       collect_candidates_threshold[OF l(2), of "demo_env tr_ok"]
       collect_candidates_threshold[OF l(3), of "demo_env tr_ok"]
  show ?thesis
    unfolding p0 p1 p2 strip_words alpha_word_count_words
    using ne sp by blast
qed

text \<open>
  C9: \<^verbatim>\<open>collect_candidates\<close> is a function of the texts of the paragraphs alone: it
  reads no backend and changes nothing, and two runs over paragraph sequences with the
  same texts give the same Candidate list. The indices of the Candidates are the
  positions of the selected paragraphs in document order: strictly increasing (so never
  repeated or reordered), and each one the position of a paragraph of the document.
\<close>

theorem collect_candidates_pure_ordered:
  "(map para_text ps = map para_text ps' \<longrightarrow>
      collect_candidates E ps = collect_candidates E ps')
   \<and> map idx (collect_candidates E ps) =
       [i \<leftarrow> [0 ..< length ps]. strip (para_text (ps ! i)) \<noteq> []
          \<and> MIN_WORDS < alpha_word_count E (strip (para_text (ps ! i)))]
   \<and> sorted_wrt (<) (map idx (collect_candidates E ps))
   \<and> distinct (map idx (collect_candidates E ps))
   \<and> (\<forall>c \<in> set (collect_candidates E ps). idx c < length ps)"
proof -
  have "distinct (map idx (collect_candidates E ps))"
    using sorted_idx_collect_candidates[of E ps] by (simp add: strict_sorted_iff)
  then show ?thesis
    using collect_candidates_texts[of ps ps' E] idx_collect_candidates_upt[of E ps]
      sorted_idx_collect_candidates[of E ps] idx_collect_candidates_bound[of _ E ps]
    by blast
qed

theorem collect_candidates_pure_ordered_witness:
  "collect_candidates (demo_env tr_ok) demo_doc = collect_candidates (demo_env tr_ok) demo_doc_runs
   \<and> map idx (collect_candidates (demo_env tr_ok) demo_doc) = [0]"
proof -
  have same: "map para_text demo_doc = map para_text demo_doc_runs"
    by (simp add: demo_doc_def demo_doc_runs_def para_text_plain)
       (simp add: para_text_def words_def new_run_def set_yahei_def)
  have p0: "para_text (demo_doc ! 0) = words 41"
    and p1: "para_text (demo_doc ! Suc 0) = words 40"
    and p2: "para_text (demo_doc ! 2) = py ''   ''"
    by (simp_all add: demo_doc_def para_text_plain)
  have upt: "[0 ..< length demo_doc] = [0, Suc 0, 2]"
    by (simp add: demo_doc_def upt_rec)
  have ne: "words 41 \<noteq> []" by (simp add: words_def py_def)
  from collect_candidates_pure_ordered[of demo_doc demo_doc_runs "demo_env tr_ok"] same
  have "collect_candidates (demo_env tr_ok) demo_doc
          = collect_candidates (demo_env tr_ok) demo_doc_runs"
    and "map idx (collect_candidates (demo_env tr_ok) demo_doc) =
       [i \<leftarrow> [0 ..< length demo_doc]. strip (para_text (demo_doc ! i)) \<noteq> []
          \<and> MIN_WORDS < alpha_word_count (demo_env tr_ok) (strip (para_text (demo_doc ! i)))]"
    by blast+
  then show ?thesis
    unfolding upt
    by (simp add: p0 p1 p2 strip_words alpha_word_count_words strip_blanks MIN_WORDS_def ne)
qed

section \<open>Translation\<close>

lemma translate_en2zh_blank:
  "strip t = [] \<Longrightarrow> translate_en2zh E w t = ([], w)"
  by (simp add: translate_en2zh_def)

lemma summarize_inputs_append:
  "summarize_inputs (a @ b) = summarize_inputs a @ summarize_inputs b"
  by (induction a rule: summarize_inputs.induct) simp_all

lemma summarize_outputs_append:
  "summarize_outputs (a @ b) = summarize_outputs a @ summarize_outputs b"
  by (induction a rule: summarize_outputs.induct) simp_all

text \<open>A translation adds at most one event to the world, and no summarizer call.\<close>

lemma translate_en2zh_world:
  "\<exists>tw. snd (translate_en2zh E w t) = w @ tw
        \<and> summarize_inputs tw = [] \<and> summarize_outputs tw = []"
  by (cases "translator E w t") (auto simp: translate_en2zh_def)

section \<open>Claims about translation\<close>

text \<open>
  C5: when the translation backend is called by \<^verbatim>\<open>translate_en2zh\<close> and raises, the
  result is the original, untranslated text: the exception is caught, the function
  returns a string as on every other path, and the failed call is all that happened. A
  call that raised is in the world only for a text that is not blank, and then the
  result is that text.
\<close>

theorem translate_failure_passthrough:
  "(strip text \<noteq> [] \<and> translator E w text = Inl e \<longrightarrow>
      translate_en2zh E w text = (text, w @ [TranslateCall text (Inl e)]))
   \<and> (snd (translate_en2zh E w text) = w @ [TranslateCall t (Inl e)] \<longrightarrow>
        fst (translate_en2zh E w text) = text \<and> t = text \<and> strip text \<noteq> [])"
  by (cases "translator E w text") (auto simp: translate_en2zh_def)

theorem translate_failure_passthrough_witness:
  "translate_en2zh (demo_env tr_fail) [] (py ''Hello'') =
     (py ''Hello'', [TranslateCall (py ''Hello'') (Inl (PyException ''RequestError''))])"
proof -
  have "strip (py ''Hello'') \<noteq> []"
    by (simp add: strip_empty_iff py_def is_space_def)
  moreover have "translator (demo_env tr_fail) [] (py ''Hello'') =
      Inl (PyException ''RequestError'')"
    by (simp add: demo_env_def tr_fail_def)
  ultimately show ?thesis
    using translate_failure_passthrough[of "py ''Hello''" "demo_env tr_fail" "[]"
        "PyException ''RequestError''"]
    by simp
qed

section \<open>Merge\<close>

lemma add_translation_run:
  "add_yahei_run p (10 # zh) False = p\<lparr>runs := runs p @ [translation_run zh]\<rparr>"
  by (simp add: add_yahei_run_def set_yahei_def new_run_def translation_run_def)

lemma add_summary_run:
  "add_yahei_run p (SUMMARY_LABEL @ s) True = p\<lparr>runs := runs p @ [summary_run s]\<rparr>"
  by (simp add: add_yahei_run_def set_yahei_def new_run_def summary_run_def)

lemma merge_para_blank:
  "strip (para_text p) = [] \<Longrightarrow> merge_para E m w (i, p) = (p, w)"
  by (simp add: merge_para_def)

lemma merge_para_runs:
  assumes "strip (para_text p) \<noteq> []"
  shows "merge_para E m w (i, p) =
     (p\<lparr>runs := runs p
            @ translation_runs (fst (translate_en2zh E w (strip (para_text p))))
            @ (case m i of Some s \<Rightarrow> if s \<noteq> [] then [summary_run s] else [] | None \<Rightarrow> [])\<rparr>,
      snd (translate_en2zh E w (strip (para_text p))))"
  using assms
  by (simp add: merge_para_def Let_def case_prod_unfold add_translation_run add_summary_run
      translation_runs_def split: option.split)

lemma merge_para_world:
  "\<exists>tw. snd (merge_para E m w ip) = w @ tw
        \<and> summarize_inputs tw = [] \<and> summarize_outputs tw = []"
proof (cases ip)
  case (Pair i p)
  show ?thesis
  proof (cases "strip (para_text p) = []")
    case True
    then show ?thesis by (simp add: Pair merge_para_blank)
  next
    case False
    then show ?thesis
      using translate_en2zh_world[of E w "strip (para_text p)"]
      by (simp add: Pair merge_para_runs)
  qed
qed

text \<open>The loop visits every paragraph once, in order, each with its own position.\<close>

lemma merge_loop_nth:
  assumes "merge_loop E m w (enumerate n ps) = (ps', w')"
  shows "length ps' = length ps
       \<and> (\<forall>i < length ps. \<exists>wi. ps' ! i = fst (merge_para E m wi (n + i, ps ! i)))"
  using assms
proof (induction ps arbitrary: n w ps' w')
  case Nil
  then show ?case by simp
next
  case (Cons p ps)
  obtain p1 w1 where s1: "merge_para E m w (n, p) = (p1, w1)" by (cases "merge_para E m w (n, p)")
  obtain ps2 w2 where s2: "merge_loop E m w1 (enumerate (Suc n) ps) = (ps2, w2)"
    by (cases "merge_loop E m w1 (enumerate (Suc n) ps)")
  from Cons.prems s1 s2 have ps': "ps' = p1 # ps2" by simp
  from Cons.IH[OF s2] have len: "length ps2 = length ps"
    and nth: "\<forall>i < length ps. \<exists>wi. ps2 ! i = fst (merge_para E m wi (Suc n + i, ps ! i))"
    by simp_all
  have "\<exists>wi. ps' ! i = fst (merge_para E m wi (n + i, (p # ps) ! i))"
    if "i < length (p # ps)" for i
  proof (cases i)
    case 0
    then show ?thesis using s1 ps' by (intro exI[of _ w]) simp
  next
    case (Suc j)
    with that nth show ?thesis by (simp add: ps')
  qed
  then show ?case using len ps' by simp
qed

text \<open>
  The dictionary of summaries, read at \<open>i\<close>, for candidates of distinct indices: the
  summary of the candidate of index \<open>i\<close>, if there is one.
\<close>

lemma idx2summary_snoc:
  "idx2summary (cands @ [c]) = (idx2summary cands)(idx c \<mapsto> summary_zh c)"
  by (simp add: idx2summary_def)

lemma idx2summary_runs:
  assumes "distinct (map idx cands)"
  shows "(case idx2summary cands i of
            Some s \<Rightarrow> if s \<noteq> [] then [summary_run s] else []
          | None \<Rightarrow> []) = summary_runs cands i"
  using assms
proof (induction cands rule: rev_induct)
  case Nil
  show ?case by (simp add: idx2summary_def summary_runs_def)
next
  case (snoc c cands)
  then have d: "distinct (map idx cands)" and new: "idx c \<notin> idx ` set cands" by simp_all
  show ?case
  proof (cases "idx c = i")
    case True
    have "idx c' \<noteq> i" if "c' \<in> set cands" for c'
      using new True that by (metis imageI)
    then have "[c' \<leftarrow> cands. idx c' = i \<and> summary_zh c' \<noteq> []] = []"
      by (simp add: filter_empty_conv)
    with True show ?thesis
      by (simp add: idx2summary_snoc summary_runs_def)
  next
    case False
    with snoc.IH[OF d] show ?thesis
      by (simp add: idx2summary_snoc summary_runs_def)
  qed
qed


section \<open>Batch summarization\<close>

declare batch_loop.simps [simp del]

lemma write_back_length:
  "write_back E pairs cands w = (cands', w') \<Longrightarrow> length cands' = length cands"
proof (induction pairs arbitrary: cands w)
  case Nil
  then show ?case by simp
next
  case (Cons a pairs)
  obtain j out where a: "a = (j, out)" by (cases a)
  from Cons.prems Cons.IH show ?case
    by (auto simp: a case_prod_unfold Let_def)
qed

lemma write_back_untouched:
  "write_back E pairs cands w = (cands', w') \<Longrightarrow> j \<notin> fst ` set pairs \<Longrightarrow>
   cands' ! j = cands ! j"
proof (induction pairs arbitrary: cands w)
  case Nil
  then show ?case by simp
next
  case (Cons a pairs)
  obtain j0 out where a: "a = (j0, out)" by (cases a)
  from Cons.prems(2) have ne: "j \<noteq> j0" and rest: "j \<notin> fst ` set pairs"
    by (auto simp: a)
  from Cons.prems(1) obtain cands1 w1 where
    step: "write_back E pairs cands1 w1 = (cands', w')"
    and c1: "cands1 = cands[j0 := (cands ! j0)\<lparr>summary_zh := fst (translate_en2zh E w (strip out))\<rparr>]"
    by (auto simp: a case_prod_unfold Let_def)
  from Cons.IH[OF step rest] have "cands' ! j = cands1 ! j" .
  with ne show ?case by (simp add: c1)
qed

lemma write_back_fields:
  "write_back E pairs cands w = (cands', w') \<Longrightarrow> j < length cands \<Longrightarrow>
   idx (cands' ! j) = idx (cands ! j) \<and> truncated (cands' ! j) = truncated (cands ! j)"
proof (induction pairs arbitrary: cands w)
  case Nil
  then show ?case by simp
next
  case (Cons a pairs)
  obtain j0 out where a: "a = (j0, out)" by (cases a)
  from Cons.prems(1) obtain cands1 w1 where
    step: "write_back E pairs cands1 w1 = (cands', w')"
    and c1: "cands1 = cands[j0 := (cands ! j0)\<lparr>summary_zh := fst (translate_en2zh E w (strip out))\<rparr>]"
    by (auto simp: a case_prod_unfold Let_def)
  have "j < length cands1" using Cons.prems(2) by (simp add: c1)
  from Cons.IH[OF step this]
  have "idx (cands' ! j) = idx (cands1 ! j) \<and> truncated (cands' ! j) = truncated (cands1 ! j)" .
  moreover have "idx (cands1 ! j) = idx (cands ! j) \<and> truncated (cands1 ! j) = truncated (cands ! j)"
    using Cons.prems(2) by (cases "j = j0") (simp_all add: c1)
  ultimately show ?case by simp
qed

lemma write_back_world:
  "write_back E pairs cands w = (cands', w') \<Longrightarrow>
   \<exists>tw. w' = w @ tw \<and> summarize_inputs tw = [] \<and> summarize_outputs tw = []"
proof (induction pairs arbitrary: cands w)
  case Nil
  then show ?case by simp
next
  case (Cons a pairs)
  obtain j0 out where a: "a = (j0, out)" by (cases a)
  from Cons.prems(1) obtain cands1 where
    step: "write_back E pairs cands1 (snd (translate_en2zh E w (strip out))) = (cands', w')"
    by (auto simp: a case_prod_unfold Let_def)
  from translate_en2zh_world[of E w "strip out"] obtain tw1 where
    t1: "snd (translate_en2zh E w (strip out)) = w @ tw1"
        "summarize_inputs tw1 = []" "summarize_outputs tw1 = []"
    by blast
  from Cons.IH[OF step] obtain tw2 where
    t2: "w' = snd (translate_en2zh E w (strip out)) @ tw2"
        "summarize_inputs tw2 = []" "summarize_outputs tw2 = []"
    by blast
  show ?case
    using t1 t2
    by (intro exI[of _ "tw1 @ tw2"]) (simp add: summarize_inputs_append summarize_outputs_append)
qed

lemma write_back_written:
  "write_back E pairs cands w = (cands', w') \<Longrightarrow> distinct (map fst pairs) \<Longrightarrow>
   (j, out) \<in> set pairs \<Longrightarrow> j < length cands \<Longrightarrow>
   \<exists>wj. summary_zh (cands' ! j) = fst (translate_en2zh E wj (strip out))"
proof (induction pairs arbitrary: cands w)
  case Nil
  then show ?case by simp
next
  case (Cons a pairs)
  obtain j0 out0 where a: "a = (j0, out0)" by (cases a)
  from Cons.prems(1) obtain cands1 w1 where
    step: "write_back E pairs cands1 w1 = (cands', w')"
    and c1: "cands1 = cands[j0 := (cands ! j0)\<lparr>summary_zh := fst (translate_en2zh E w (strip out0))\<rparr>]"
    by (auto simp: a case_prod_unfold Let_def)
  from Cons.prems(2) have d: "distinct (map fst pairs)" and fresh: "j0 \<notin> fst ` set pairs"
    by (simp_all add: a)
  show ?case
  proof (cases "(j, out) = (j0, out0)")
    case True
    then have "cands' ! j = cands1 ! j"
      using write_back_untouched[OF step, of j] fresh by simp
    with True Cons.prems(4) show ?thesis
      by (intro exI[of _ w]) (simp add: c1)
  next
    case False
    with Cons.prems(3) have "(j, out) \<in> set pairs" by (auto simp: a)
    moreover have "j < length cands1" using Cons.prems(4) by (simp add: c1)
    ultimately show ?thesis using Cons.IH[OF step d] by blast
  qed
qed

text \<open>The inner loop on the slice \<open>[a ..< b]\<close> of the candidates and the summaries \<open>outs\<close>.\<close>

lemma write_back_slice_outside:
  assumes "write_back E (zip [a ..< b] outs) cands w = (cands1, w1)"
    and "j < a \<or> b \<le> j \<or> a + length outs \<le> j"
  shows "cands1 ! j = cands ! j"
proof (rule write_back_untouched[OF assms(1)])
  show "j \<notin> fst ` set (zip [a ..< b] outs)"
    using assms(2) by (auto simp: set_zip)
qed

lemma write_back_slice_written:
  assumes "write_back E (zip [a ..< b] outs) cands w = (cands1, w1)"
    and "a + k < b" "k < length outs" "b \<le> length cands"
  shows "\<exists>wj. summary_zh (cands1 ! (a + k)) = fst (translate_en2zh E wj (strip (outs ! k)))"
proof (rule write_back_written[OF assms(1)])
  show "distinct (map fst (zip [a ..< b] outs))"
    by (simp add: map_fst_zip_take)
  show "(a + k, outs ! k) \<in> set (zip [a ..< b] outs)"
    using assms(2,3) by (auto simp: set_zip intro!: exI[of _ k])
  show "a + k < length cands" using assms(2,4) by simp
qed

text \<open>One round of the outer loop, when the summarizer answers and when the loop ends.\<close>

lemma batch_loop_done:
  "\<not> start < length texts \<Longrightarrow> batch_loop E texts start cands w = (Inr cands, w)"
  by (subst batch_loop.simps) simp

lemma batch_loop_round:
  assumes "start < length texts"
    and "batch_loop E texts start cands w = (Inr cands', w')"
  shows "\<exists>outs cands1 w1.
           summarizer E w (take 4 (drop start texts)) = Inr outs
         \<and> write_back E (zip [start ..< min (start + 4) (length cands)] outs) cands
              (w @ [SummarizeCall (take 4 (drop start texts)) (Inr outs)]) = (cands1, w1)
         \<and> batch_loop E texts (start + 4) cands1 w1 = (Inr cands', w')"
proof (cases "summarizer E w (take 4 (drop start texts))")
  case (Inl e)
  with assms show ?thesis
    by (subst (asm) batch_loop.simps) (simp add: BATCH_SIZE_def)
next
  case (Inr outs)
  obtain cands1 w1 where wb:
    "write_back E (zip [start ..< min (start + 4) (length cands)] outs) cands
       (w @ [SummarizeCall (take 4 (drop start texts)) (Inr outs)]) = (cands1, w1)"
    by (cases "write_back E (zip [start ..< min (start + 4) (length cands)] outs) cands
       (w @ [SummarizeCall (take 4 (drop start texts)) (Inr outs)])")
  from assms(2) have "batch_loop E texts (start + 4) cands1 w1 = (Inr cands', w')"
    by (subst (asm) batch_loop.simps) (simp add: BATCH_SIZE_def assms(1) Inr wb)
  with Inr wb show ?thesis by blast
qed


lemma div4_step: "(m + 4) div 4 = Suc (m div 4)" for m :: nat
  by simp

lemma batches_from:
  fixes start n :: nat
  assumes "start < n"
  shows "(n - start + 3) div 4 = Suc ((n - (start + 4) + 3) div 4)"
proof (cases "start + 4 \<le> n")
  case True
  then have e: "n - start + 3 = (n - (start + 4) + 3) + 4" by simp
  show ?thesis by (simp only: e div4_step)
next
  case False
  then have z: "n - (start + 4) = 0" by simp
  have lo: "4 * 1 \<le> n - start + 3" using assms by simp
  have hi: "n - start + 3 < 4 * Suc 1" using False by simp
  have one: "(n - start + 3) div 4 = 1" using lo hi by (rule div_nat_eqI)
  have zero: "(0 + 3) div 4 = (0::nat)" by simp
  show ?thesis by (simp only: z one zero One_nat_def)
qed

text \<open>
  The loop from \<open>start\<close> on, when no call of the summarizer raises: batch \<open>b\<close> is the
  slice of four texts at \<open>start + 4 * b\<close>, and its \<open>k\<close>-th summary goes to the candidate
  at \<open>start + 4 * b + k\<close>.
\<close>

lemma batch_loop_success:
  assumes "batch_loop E texts start cands w = (Inr cands', w')"
    and "length cands = length texts"
  shows "\<exists>nw. w' = w @ nw
      \<and> length (summarize_inputs nw) = (length texts - start + 3) div 4
      \<and> length (summarize_outputs nw) = (length texts - start + 3) div 4
      \<and> (\<forall>b < (length texts - start + 3) div 4.
            summarize_inputs nw ! b = take 4 (drop (start + 4 * b) texts))
      \<and> length cands' = length cands
      \<and> (\<forall>j < length cands. idx (cands' ! j) = idx (cands ! j)
                            \<and> truncated (cands' ! j) = truncated (cands ! j))
      \<and> (\<forall>j < start. cands' ! j = cands ! j)
      \<and> (\<forall>b k. k < 4 \<longrightarrow> start + 4 * b + k < length cands \<longrightarrow>
            (k < length (summarize_outputs nw ! b) \<longrightarrow>
               (\<exists>wj. summary_zh (cands' ! (start + 4 * b + k)) =
                       fst (translate_en2zh E wj (strip (summarize_outputs nw ! b ! k)))))
          \<and> (length (summarize_outputs nw ! b) \<le> k \<longrightarrow>
               summary_zh (cands' ! (start + 4 * b + k)) =
               summary_zh (cands ! (start + 4 * b + k))))"
  using assms
proof (induction "length texts - start" arbitrary: start cands w rule: less_induct)
  case less
  show ?case
  proof (cases "start < length texts")
    case False
    with less.prems(1) have "cands' = cands" "w' = w"
      by (simp_all add: batch_loop_done)
    moreover have "(length texts - start + 3) div 4 = 0" using False by simp
    moreover have "\<not> start + 4 * b + k < length cands" for b k
      using False less.prems(2) by simp
    ultimately show ?thesis by (intro exI[of _ "[]"]) simp
  next
    case True
    let ?chunk = "take 4 (drop start texts)"
    let ?slice = "[start ..< min (start + 4) (length cands)]"
    from batch_loop_round[OF True less.prems(1)] obtain outs cands1 w1 where
      outs: "summarizer E w ?chunk = Inr outs"
      and wb: "write_back E (zip ?slice outs) cands (w @ [SummarizeCall ?chunk (Inr outs)])
                 = (cands1, w1)"
      and rec: "batch_loop E texts (start + 4) cands1 w1 = (Inr cands', w')"
      by blast
    have len1: "length cands1 = length cands" by (rule write_back_length[OF wb])
    from write_back_world[OF wb] obtain tw where
      tw: "w1 = (w @ [SummarizeCall ?chunk (Inr outs)]) @ tw"
          "summarize_inputs tw = []" "summarize_outputs tw = []"
      by blast
    have fields1: "idx (cands1 ! j) = idx (cands ! j) \<and> truncated (cands1 ! j) = truncated (cands ! j)"
      if "j < length cands" for j
      by (rule write_back_fields[OF wb that])
    have lt: "length texts - (start + 4) < length texts - start" using True by simp
    have len1t: "length cands1 = length texts" using len1 less.prems(2) by simp
    from less.hyps[OF lt rec len1t] obtain nw2 where
      w': "w' = w1 @ nw2"
      and n_in: "length (summarize_inputs nw2) = (length texts - (start + 4) + 3) div 4"
      and n_out: "length (summarize_outputs nw2) = (length texts - (start + 4) + 3) div 4"
      and ins: "\<forall>b < (length texts - (start + 4) + 3) div 4.
                  summarize_inputs nw2 ! b = take 4 (drop (start + 4 + 4 * b) texts)"
      and len': "length cands' = length cands1"
      and fields': "\<forall>j < length cands1. idx (cands' ! j) = idx (cands1 ! j)
                            \<and> truncated (cands' ! j) = truncated (cands1 ! j)"
      and before: "\<forall>j < start + 4. cands' ! j = cands1 ! j"
      and pos: "\<forall>b k. k < 4 \<longrightarrow> start + 4 + 4 * b + k < length cands1 \<longrightarrow>
            (k < length (summarize_outputs nw2 ! b) \<longrightarrow>
               (\<exists>wj. summary_zh (cands' ! (start + 4 + 4 * b + k)) =
                       fst (translate_en2zh E wj (strip (summarize_outputs nw2 ! b ! k)))))
          \<and> (length (summarize_outputs nw2 ! b) \<le> k \<longrightarrow>
               summary_zh (cands' ! (start + 4 + 4 * b + k)) =
               summary_zh (cands1 ! (start + 4 + 4 * b + k)))"
      by blast
    define nw where "nw = SummarizeCall ?chunk (Inr outs) # tw @ nw2"
    have nb: "(length texts - start + 3) div 4 = Suc ((length texts - (start + 4) + 3) div 4)"
      by (rule batches_from[OF True])
    have in_nw: "summarize_inputs nw = ?chunk # summarize_inputs nw2"
      by (simp add: nw_def summarize_inputs_append tw)
    have out_nw: "summarize_outputs nw = outs # summarize_outputs nw2"
      by (simp add: nw_def summarize_outputs_append tw)
    have c1: "w' = w @ nw" by (simp add: nw_def w' tw)
    have c2: "length (summarize_inputs nw) = (length texts - start + 3) div 4"
      unfolding in_nw by (simp add: n_in nb)
    have c3: "length (summarize_outputs nw) = (length texts - start + 3) div 4"
      unfolding out_nw by (simp add: n_out nb)
    have c4: "summarize_inputs nw ! b = take 4 (drop (start + 4 * b) texts)"
      if "b < (length texts - start + 3) div 4" for b
    proof (cases b)
      case 0
      then show ?thesis by (simp add: in_nw)
    next
      case (Suc b')
      with that nb have "b' < (length texts - (start + 4) + 3) div 4" by simp
      with ins have "summarize_inputs nw2 ! b' = take 4 (drop (start + 4 + 4 * b') texts)"
        by blast
      then show ?thesis by (simp add: in_nw Suc add.assoc)
    qed
    have c5: "length cands' = length cands" by (simp add: len' len1)
    have c6: "idx (cands' ! j) = idx (cands ! j) \<and> truncated (cands' ! j) = truncated (cands ! j)"
      if "j < length cands" for j
      using fields' fields1[OF that] that len1 by simp
    have c7: "cands' ! j = cands ! j" if "j < start" for j
    proof -
      have "cands' ! j = cands1 ! j" using before that by simp
      also have "\<dots> = cands ! j"
        using that by (intro write_back_slice_outside[OF wb]) simp
      finally show ?thesis .
    qed
    have c8: "(k < length (summarize_outputs nw ! b) \<longrightarrow>
               (\<exists>wj. summary_zh (cands' ! (start + 4 * b + k)) =
                       fst (translate_en2zh E wj (strip (summarize_outputs nw ! b ! k)))))
          \<and> (length (summarize_outputs nw ! b) \<le> k \<longrightarrow>
               summary_zh (cands' ! (start + 4 * b + k)) =
               summary_zh (cands ! (start + 4 * b + k)))"
      if k: "k < 4" and j: "start + 4 * b + k < length cands" for b k
    proof (cases b)
      case 0
      have same: "cands' ! (start + k) = cands1 ! (start + k)"
        using before k by simp
      have inb: "start + k < min (start + 4) (length cands)"
        using k j 0 by simp
      have "\<exists>wj. summary_zh (cands1 ! (start + k)) =
                 fst (translate_en2zh E wj (strip (outs ! k)))"
        if "k < length outs"
        by (rule write_back_slice_written[OF wb inb that]) simp
      moreover have "cands1 ! (start + k) = cands ! (start + k)" if "length outs \<le> k"
        using that by (intro write_back_slice_outside[OF wb]) simp
      ultimately show ?thesis by (auto simp: 0 out_nw same)
    next
      case (Suc b')
      have j': "start + 4 + 4 * b' + k < length cands1"
        using j Suc len1 by simp
      have "min (start + 4) (length cands) \<le> start + 4 + 4 * b' + k"
        by (simp add: min_def)
      then have unt: "cands1 ! (start + 4 + 4 * b' + k) = cands ! (start + 4 + 4 * b' + k)"
        by (intro write_back_slice_outside[OF wb]) blast
      have e: "start + 4 * b + k = start + 4 + 4 * b' + k" by (simp add: Suc)
      from pos k j' show ?thesis
        unfolding e by (simp add: Suc out_nw unt)
    qed
    from c4 have c4': "\<forall>b < (length texts - start + 3) div 4.
        summarize_inputs nw ! b = take 4 (drop (start + 4 * b) texts)" by blast
    from c6 have c6': "\<forall>j < length cands. idx (cands' ! j) = idx (cands ! j)
        \<and> truncated (cands' ! j) = truncated (cands ! j)" by blast
    from c7 have c7': "\<forall>j < start. cands' ! j = cands ! j" by blast
    from c8 have c8': "\<forall>b k. k < 4 \<longrightarrow> start + 4 * b + k < length cands \<longrightarrow>
            (k < length (summarize_outputs nw ! b) \<longrightarrow>
               (\<exists>wj. summary_zh (cands' ! (start + 4 * b + k)) =
                       fst (translate_en2zh E wj (strip (summarize_outputs nw ! b ! k)))))
          \<and> (length (summarize_outputs nw ! b) \<le> k \<longrightarrow>
               summary_zh (cands' ! (start + 4 * b + k)) =
               summary_zh (cands ! (start + 4 * b + k)))" by blast
    show ?thesis
      by (intro exI[of _ nw] conjI) (rule c1 c2 c3 c4' c5 c6' c7' c8')+
  qed
qed




section \<open>Claims about batch summarization\<close>



section \<open>The whole pipeline\<close>

lemma batch_summarize_idx:
  assumes "batch_summarize E cands w = (Inr cands', w')"
  shows "map idx cands' = map idx cands"
proof (cases "cands = []")
  case True
  with assms show ?thesis by (simp add: batch_summarize_def)
next
  case False
  with assms have loop: "batch_loop E (map truncated cands) 0 cands w = (Inr cands', w')"
    by (simp add: batch_summarize_def)
  have len: "length cands = length (map truncated cands)" by simp
  from batch_loop_success[OF loop len] have
    l: "length cands' = length cands"
    and f: "\<forall>j < length cands. idx (cands' ! j) = idx (cands ! j)
                            \<and> truncated (cands' ! j) = truncated (cands ! j)"
    by blast+
  show ?thesis
    by (rule nth_equalityI) (simp_all add: l f)
qed

lemma process_docx_steps:
  assumes "process_docx E w doc = (Inr doc', w')"
  shows "\<exists>cands' w1. batch_summarize E (collect_candidates E doc) w = (Inr cands', w1)
           \<and> merge_loop E (idx2summary cands') w1 (enumerate 0 doc) = (doc', w')"
proof -
  obtain res w1 where b: "batch_summarize E (collect_candidates E doc) w = (res, w1)"
    by (cases "batch_summarize E (collect_candidates E doc) w")
  show ?thesis
  proof (cases res)
    case (Inl e)
    with assms b show ?thesis by (simp add: process_docx_def)
  next
    case (Inr cands')
    obtain ps w2 where m: "merge_loop E (idx2summary cands') w1 (enumerate 0 doc) = (ps, w2)"
      by (cases "merge_loop E (idx2summary cands') w1 (enumerate 0 doc)")
    with assms b Inr have "ps = doc'" "w2 = w'" by (simp_all add: process_docx_def)
    with b Inr m show ?thesis by simp
  qed
qed

text \<open>
  What the saved document is, paragraph by paragraph, in terms of the summarized
  candidates.
\<close>

lemma process_docx_paragraphs:
  assumes "process_docx E w doc = (Inr doc', w')"
    and "batch_summarize E (collect_candidates E doc) w = (Inr cands', w1)"
  shows "length doc' = length doc
       \<and> distinct (map idx cands')
       \<and> (\<forall>i < length doc.
            (strip (para_text (doc ! i)) = [] \<longrightarrow> doc' ! i = doc ! i)
          \<and> (strip (para_text (doc ! i)) \<noteq> [] \<longrightarrow>
               (\<exists>wi. doc' ! i = (doc ! i)\<lparr>runs := runs (doc ! i)
                  @ translation_runs (fst (translate_en2zh E wi (strip (para_text (doc ! i)))))
                  @ summary_runs cands' i\<rparr>)))"
proof -
  from process_docx_steps[OF assms(1)] assms(2)
  have m: "merge_loop E (idx2summary cands') w1 (enumerate 0 doc) = (doc', w')" by simp
  have d: "distinct (map idx cands')"
    unfolding batch_summarize_idx[OF assms(2)]
    using sorted_idx_collect_candidates[of E doc] by (simp add: strict_sorted_iff)
  from merge_loop_nth[OF m] have len: "length doc' = length doc"
    and nth: "\<forall>i < length doc. \<exists>wi. doc' ! i =
                fst (merge_para E (idx2summary cands') wi (0 + i, doc ! i))"
    by simp_all
  have "(strip (para_text (doc ! i)) = [] \<longrightarrow> doc' ! i = doc ! i)
          \<and> (strip (para_text (doc ! i)) \<noteq> [] \<longrightarrow>
               (\<exists>wi. doc' ! i = (doc ! i)\<lparr>runs := runs (doc ! i)
                  @ translation_runs (fst (translate_en2zh E wi (strip (para_text (doc ! i)))))
                  @ summary_runs cands' i\<rparr>))"
    if i: "i < length doc" for i
  proof -
    from nth i obtain wi where
      wi: "doc' ! i = fst (merge_para E (idx2summary cands') wi (i, doc ! i))"
      by auto
    show ?thesis
    proof (cases "strip (para_text (doc ! i)) = []")
      case True
      with wi show ?thesis by (simp add: merge_para_blank)
    next
      case False
      with wi have "doc' ! i = (doc ! i)\<lparr>runs := runs (doc ! i)
            @ translation_runs (fst (translate_en2zh E wi (strip (para_text (doc ! i)))))
            @ summary_runs cands' i\<rparr>"
        by (simp add: merge_para_runs idx2summary_runs[OF d])
      with False show ?thesis by blast
    qed
  qed
  with len d show ?thesis by blast
qed

section \<open>The small environment on the whole pipeline\<close>

lemma length_words: "length (words n) = 5 * n + 5"
  by (induction n) (simp_all add: words_def py_def)

lemma take8_words: "take 8 (words (Suc (Suc n))) = py ''word wor''"
  by (simp add: words_def py_def)

lemma words_not_blank: "words n \<noteq> []"
  by (simp add: words_def py_def)

lemma demo_collect:
  "collect_candidates (demo_env tr) demo_doc =
     [\<lparr>idx = 0, truncated = words 41, summary_zh = []\<rparr>]"
proof -
  have c: "Candidate (demo_env tr) 0 (words 41) =
      \<lparr>idx = 0, truncated = words 41, summary_zh = []\<rparr>"
    by (simp add: Candidate_def demo_tokens_length length_words MAX_INPUT_TOKENS_def)
  have "collect_candidates (demo_env tr) demo_doc = [Candidate (demo_env tr) 0 (words 41)]"
    by (simp add: collect_candidates_def collect_step_def demo_doc_def para_text_plain
        strip_words strip_blanks words_not_blank MIN_WORDS_def
        alpha_word_count_words[unfolded alpha_word_count_def])
  with c show ?thesis by simp
qed

lemma strip_summary: "strip (py ''word wor'') = py ''word wor''"
  by (rule strip_id) (simp_all add: py_def is_space_def)

lemma translate_ok:
  "t \<noteq> [] \<Longrightarrow> strip t = t \<Longrightarrow>
   translate_en2zh (demo_env tr_ok) w t = (py ''zh:'' @ t, w @ [TranslateCall t (Inr (py ''zh:'' @ t))])"
  by (simp add: translate_en2zh_def demo_env_def tr_ok_def)

lemma demo_batch_doc:
  "batch_summarize (demo_env tr_ok) [\<lparr>idx = 0, truncated = words 41, summary_zh = []\<rparr>] [] =
     (Inr [\<lparr>idx = 0, truncated = words 41, summary_zh = py ''zh:word wor''\<rparr>],
      [SummarizeCall [words 41] (Inr [py ''word wor'']),
       TranslateCall (py ''word wor'') (Inr (py ''zh:word wor''))])"
proof -
  have t8: "take 8 (words 41) = py ''word wor''"
    using take8_words[of 39] by (simp add: eval_nat_numeral)
  have s: "summarizer (demo_env tr_ok) [] [words 41] = Inr [py ''word wor'']"
    by (simp add: demo_env_def t8)
  have tr: "translate_en2zh (demo_env tr_ok)
        [SummarizeCall [words 41] (Inr [py ''word wor''])] (py ''word wor'') =
      (py ''zh:word wor'', [SummarizeCall [words 41] (Inr [py ''word wor'']),
       TranslateCall (py ''word wor'') (Inr (py ''zh:word wor''))])"
    by (simp add: translate_en2zh_def strip_summary demo_env_def tr_ok_def) (simp add: py_def)
  show ?thesis
    by (simp add: batch_summarize_def batch_loop.simps[of _ _ 0] batch_loop_done BATCH_SIZE_def
        s strip_summary tr upt_rec)
qed

lemma para_text_single: "para_text \<lparr>runs = [new_run t]\<rparr> = t"
  by (simp add: para_text_def new_run_def)

lemma demo_process:
  "process_docx (demo_env tr_ok) [] demo_doc =
     (Inr [\<lparr>runs = [new_run (words 41), translation_run (py ''zh:'' @ words 41),
                    summary_run (py ''zh:word wor'')]\<rparr>,
           \<lparr>runs = [new_run (words 40), translation_run (py ''zh:'' @ words 40)]\<rparr>,
           plain (py ''   '')],
      [SummarizeCall [words 41] (Inr [py ''word wor'']),
       TranslateCall (py ''word wor'') (Inr (py ''zh:word wor'')),
       TranslateCall (words 41) (Inr (py ''zh:'' @ words 41)),
       TranslateCall (words 40) (Inr (py ''zh:'' @ words 40))])"
proof -
  have m: "idx2summary [\<lparr>idx = 0, truncated = words 41, summary_zh = py ''zh:word wor''\<rparr>]
      = [0 \<mapsto> py ''zh:word wor'']"
    by (simp add: idx2summary_def)
  have ne: "py ''zh:word wor'' \<noteq> []" "py ''zh:'' @ words 41 \<noteq> []" "py ''zh:'' @ words 40 \<noteq> []"
    by (simp_all add: py_def)
  show ?thesis
    unfolding process_docx_def demo_collect Let_def demo_batch_doc
    by (simp add: m demo_doc_def merge_para_def para_text_single strip_words strip_blanks
        words_not_blank translate_ok add_translation_run add_summary_run ne plain_def Let_def)
qed

section \<open>Claims about the merge step\<close>

text \<open>
  C6: when \<^verbatim>\<open>process_docx\<close> reaches the point of saving, the saved document has as many
  paragraphs as the loaded one, and its \<open>i\<close>-th paragraph is the \<open>i\<close>-th loaded paragraph
  with runs appended: the loaded runs are a prefix of the saved runs, and the loaded text
  is a prefix of the saved text. No paragraph is removed, moved or shortened.
\<close>

theorem merge_preserves_paragraphs:
  assumes "process_docx E w doc = (Inr doc', w')"
  shows "length doc' = length doc
       \<and> (\<forall>i < length doc. prefix (runs (doc ! i)) (runs (doc' ! i))
                           \<and> prefix (para_text (doc ! i)) (para_text (doc' ! i)))"
proof -
  from process_docx_steps[OF assms] obtain cands' w1 where
    b: "batch_summarize E (collect_candidates E doc) w = (Inr cands', w1)"
    by blast
  note p = process_docx_paragraphs[OF assms b]
  have "prefix (runs (doc ! i)) (runs (doc' ! i))
      \<and> prefix (para_text (doc ! i)) (para_text (doc' ! i))"
    if i: "i < length doc" for i
  proof (cases "strip (para_text (doc ! i)) = []")
    case True
    with p i have "doc' ! i = doc ! i" by blast
    then show ?thesis by simp
  next
    case False
    with p i obtain extra where "doc' ! i = (doc ! i)\<lparr>runs := runs (doc ! i) @ extra\<rparr>"
      by blast
    then show ?thesis by (simp add: para_text_def)
  qed
  with p show ?thesis by blast
qed

theorem merge_preserves_paragraphs_witness:
  "\<exists>doc' w'. process_docx (demo_env tr_ok) [] demo_doc = (Inr doc', w')
     \<and> length doc' = 3
     \<and> prefix (words 41) (para_text (doc' ! 0))
     \<and> prefix [new_run (words 40)] (runs (doc' ! 1))"
proof -
  obtain doc' w' where run: "process_docx (demo_env tr_ok) [] demo_doc = (Inr doc', w')"
    using demo_process by blast
  from merge_preserves_paragraphs[OF run]
  have len: "length doc' = length demo_doc"
    and pre: "\<forall>i < length demo_doc. prefix (runs (demo_doc ! i)) (runs (doc' ! i))
                \<and> prefix (para_text (demo_doc ! i)) (para_text (doc' ! i))"
    by blast+
  have l: "length demo_doc = 3" by (simp add: demo_doc_def)
  have d0: "para_text (demo_doc ! 0) = words 41"
    by (simp add: demo_doc_def para_text_plain)
  have d1: "runs (demo_doc ! 1) = [new_run (words 40)]"
    by (simp add: demo_doc_def plain_def)
  have c1: "length doc' = 3" using len l by simp
  have c2: "prefix (words 41) (para_text (doc' ! 0))"
    using pre[rule_format, of 0] l d0 by simp
  have c3: "prefix [new_run (words 40)] (runs (doc' ! 1))"
    using pre[rule_format, of 1] l d1 by simp
  show ?thesis
    by (intro exI[of _ doc'] exI[of _ w'] conjI) (rule run c1 c2 c3)+
qed




section \<open>Blank text\<close>

lemma batch_summarize_written:
  assumes "batch_summarize E cands w = (Inr cands', w1)"
    and "k < 4" "4 * b + k < length cands"
    and "k < length (summarize_outputs (drop (length w) w1) ! b)"
  shows "\<exists>wj. summary_zh (cands' ! (4 * b + k)) =
           fst (translate_en2zh E wj (strip (summarize_outputs (drop (length w) w1) ! b ! k)))"
proof -
  from assms(3) have "cands \<noteq> []" by auto
  with assms(1) have loop: "batch_loop E (map truncated cands) 0 cands w = (Inr cands', w1)"
    by (simp add: batch_summarize_def)
  have len: "length cands = length (map truncated cands)" by simp
  from batch_loop_success[OF loop len] obtain nw where
    nw: "w1 = w @ nw"
    and pos: "\<forall>b k. k < 4 \<longrightarrow> 0 + 4 * b + k < length cands \<longrightarrow>
            (k < length (summarize_outputs nw ! b) \<longrightarrow>
               (\<exists>wj. summary_zh (cands' ! (0 + 4 * b + k)) =
                       fst (translate_en2zh E wj (strip (summarize_outputs nw ! b ! k)))))
          \<and> (length (summarize_outputs nw ! b) \<le> k \<longrightarrow>
               summary_zh (cands' ! (0 + 4 * b + k)) =
               summary_zh (cands ! (0 + 4 * b + k)))"
    by blast
  have d: "drop (length w) w1 = nw" by (simp add: nw)
  from pos[rule_format, of k b] assms(2,3,4) show ?thesis
    unfolding d by simp
qed

lemma summary_runs_blank:
  assumes "distinct (map idx cands)" "j < length cands" "summary_zh (cands ! j) = []"
  shows "summary_runs cands (idx (cands ! j)) = []"
proof -
  have "summary_zh c = []" if c: "c \<in> set cands" "idx c = idx (cands ! j)" for c
  proof -
    from c(1) obtain m where m: "m < length cands" "cands ! m = c"
      by (auto simp: in_set_conv_nth)
    with c(2) have "map idx cands ! m = map idx cands ! j"
      using assms(2) by simp
    with assms(1,2) m(1) have "m = j"
      by (simp add: nth_eq_iff_index_eq del: nth_map)
    with m(2) assms(3) show ?thesis by simp
  qed
  then show ?thesis by (auto simp: summary_runs_def filter_empty_conv)
qed

section \<open>The small environment with blank summaries\<close>

lemma blank_summaries_fields:
  "tokenize (blank_summaries E) = tokenize E"
  "sent_tokenize (blank_summaries E) = sent_tokenize E"
  "word_tokenize (blank_summaries E) = word_tokenize E"
  "is_alpha (blank_summaries E) = is_alpha E"
  "translator (blank_summaries E) = translator E"
  by (simp_all add: blank_summaries_def)

lemma keep_loop_blank:
  "keep_loop (blank_summaries E) mx ss cur kept = keep_loop E mx ss cur kept"
  by (induction ss arbitrary: cur kept) (simp_all add: blank_summaries_fields Let_def)

lemma collect_blank:
  "collect_candidates (blank_summaries E) doc = collect_candidates E doc"
proof -
  have c: "Candidate (blank_summaries E) i t = Candidate E i t" for i t
    by (simp add: Candidate_def truncate_text_by_sentences_def keep_loop_blank
        blank_summaries_fields)
  have a: "isalpha (blank_summaries E) = isalpha E"
    by (simp add: fun_eq_iff isalpha_def blank_summaries_fields)
  have "collect_step (blank_summaries E) = collect_step E"
    by (simp add: fun_eq_iff collect_step_def c a blank_summaries_fields Let_def)
  then show ?thesis by (simp add: collect_candidates_def)
qed

lemma translate_blank_env:
  "translate_en2zh (blank_summaries E) w t = translate_en2zh E w t"
  by (simp add: translate_en2zh_def blank_summaries_fields)

lemma translate_en2zh_Nil: "translate_en2zh E w [] = ([], w)"
  by (simp add: translate_en2zh_def strip_def)

lemma demo_batch_blank:
  "batch_summarize (blank_summaries (demo_env tr_ok))
       [\<lparr>idx = 0, truncated = words 41, summary_zh = []\<rparr>] [] =
     (Inr [\<lparr>idx = 0, truncated = words 41, summary_zh = []\<rparr>],
      [SummarizeCall [words 41] (Inr [py ''  ''])])"
proof -
  have s: "summarizer (blank_summaries (demo_env tr_ok)) [] [words 41] = Inr [py ''  '']"
    by (simp add: blank_summaries_def)
  have b: "strip (py ''  '') = []"
    by (simp add: strip_empty_iff py_def is_space_def)
  show ?thesis
    by (simp add: batch_summarize_def batch_loop.simps[of _ _ 0] batch_loop_done BATCH_SIZE_def
        s b translate_en2zh_Nil upt_rec Let_def)
qed

lemma process_docx_reaches_save:
  assumes "batch_summarize E (collect_candidates E doc) w = (Inr cands', w1)"
  shows "\<exists>doc' w'. process_docx E w doc = (Inr doc', w')"
proof -
  obtain ps w2 where "merge_loop E (idx2summary cands') w1 (enumerate 0 doc) = (ps, w2)"
    by (cases "merge_loop E (idx2summary cands') w1 (enumerate 0 doc)")
  with assms show ?thesis by (simp add: process_docx_def)
qed

section \<open>Claim about blank text\<close>

text \<open>
  C10: for a text that is empty or consists of whitespace only, \<^verbatim>\<open>translate_en2zh\<close>
  returns the empty string and leaves the world as it was: the backend is not called,
  and a whitespace-only text does not come back unchanged. In \<^verbatim>\<open>process_docx\<close>, a
  paragraph of whitespace only is left as it is, without a translation run; and when
  the \<open>k\<close>-th summary the summarizer returned for batch \<open>b\<close> is whitespace only, the
  candidate at \<open>4 * b + k\<close> gets the empty summary and its paragraph gets no summary run:
  the runs appended to it are those of the translation alone.
\<close>

theorem blank_text_never_annotated:
  "((\<forall>c \<in> set text. is_space c) \<longrightarrow>
       translate_en2zh E w text = ([], w)
     \<and> (text \<noteq> [] \<longrightarrow> fst (translate_en2zh E w text) \<noteq> text))
   \<and> (process_docx E w doc = (Inr doc', w') \<longrightarrow>
        (\<forall>i < length doc.
           (\<forall>c \<in> set (para_text (doc ! i)). is_space c) \<longrightarrow> doc' ! i = doc ! i)
      \<and> (\<forall>cands' w1 b k.
           batch_summarize E (collect_candidates E doc) w = (Inr cands', w1)
           \<and> k < 4 \<and> 4 * b + k < length cands'
           \<and> k < length (summarize_outputs (drop (length w) w1) ! b)
           \<and> (\<forall>c \<in> set (summarize_outputs (drop (length w) w1) ! b ! k). is_space c)
         \<longrightarrow> summary_zh (cands' ! (4 * b + k)) = []
           \<and> summary_runs cands' (idx (cands' ! (4 * b + k))) = []
           \<and> (\<exists>wi. runs (doc' ! idx (cands' ! (4 * b + k))) =
                  runs (doc ! idx (cands' ! (4 * b + k)))
                  @ translation_runs (fst (translate_en2zh E wi
                      (strip (para_text (doc ! idx (cands' ! (4 * b + k))))))))))"
proof (intro conjI impI allI)
  assume "\<forall>c \<in> set text. is_space c"
  then have "strip text = []" by (simp add: strip_empty_iff)
  then show "translate_en2zh E w text = ([], w)" by (rule translate_en2zh_blank)
  then show "fst (translate_en2zh E w text) \<noteq> text" if "text \<noteq> []"
    using that by simp
next
  fix i
  assume run: "process_docx E w doc = (Inr doc', w')"
    and i: "i < length doc"
    and blank: "\<forall>c \<in> set (para_text (doc ! i)). is_space c"
  from process_docx_steps[OF run] obtain cands' w1 where
    b: "batch_summarize E (collect_candidates E doc) w = (Inr cands', w1)"
    by blast
  from blank have "strip (para_text (doc ! i)) = []" by (simp add: strip_empty_iff)
  with process_docx_paragraphs[OF run b] i show "doc' ! i = doc ! i" by blast
next
  fix cands' w1 b k
  assume run: "process_docx E w doc = (Inr doc', w')"
    and h: "batch_summarize E (collect_candidates E doc) w = (Inr cands', w1)
           \<and> k < 4 \<and> 4 * b + k < length cands'
           \<and> k < length (summarize_outputs (drop (length w) w1) ! b)
           \<and> (\<forall>c \<in> set (summarize_outputs (drop (length w) w1) ! b ! k). is_space c)"
  let ?cands = "collect_candidates E doc"
  let ?j = "4 * b + k"
  let ?i = "idx (cands' ! ?j)"
  from h have b: "batch_summarize E ?cands w = (Inr cands', w1)"
    and k: "k < 4" and j': "?j < length cands'"
    and kout: "k < length (summarize_outputs (drop (length w) w1) ! b)"
    and blank: "\<forall>c \<in> set (summarize_outputs (drop (length w) w1) ! b ! k). is_space c"
    by blast+
  note ids = batch_summarize_idx[OF b]
  then have "length (map idx cands') = length (map idx ?cands)" by simp
  then have len: "length cands' = length ?cands" by simp
  with j' have j: "?j < length ?cands" by simp
  from batch_summarize_written[OF b k j kout] obtain wj where
    "summary_zh (cands' ! ?j) =
       fst (translate_en2zh E wj (strip (summarize_outputs (drop (length w) w1) ! b ! k)))"
    by blast
  moreover from blank have "strip (summarize_outputs (drop (length w) w1) ! b ! k) = []"
    by (simp add: strip_empty_iff)
  ultimately have empty: "summary_zh (cands' ! ?j) = []"
    by (simp add: translate_en2zh_Nil)
  note p = process_docx_paragraphs[OF run b]
  then have d: "distinct (map idx cands')" by blast
  have none: "summary_runs cands' ?i = []"
    by (rule summary_runs_blank[OF d j' empty])
  have "?i = map idx cands' ! ?j" using j' by simp
  also have "\<dots> = idx (?cands ! ?j)" unfolding ids using j by simp
  finally have i_eq: "?i = idx (?cands ! ?j)" .
  have mem: "?cands ! ?j \<in> set ?cands" using j by simp
  then have i_lt: "?i < length doc"
    unfolding i_eq by (rule idx_collect_candidates_bound)
  have "\<exists>c \<in> set ?cands. idx c = ?i" using mem i_eq by auto
  with idx_candidate_iff[OF i_lt, of E] have ne: "strip (para_text (doc ! ?i)) \<noteq> []"
    by blast
  with p i_lt obtain wi where "doc' ! ?i = (doc ! ?i)\<lparr>runs := runs (doc ! ?i)
      @ translation_runs (fst (translate_en2zh E wi (strip (para_text (doc ! ?i)))))
      @ summary_runs cands' ?i\<rparr>"
    by blast
  then have "runs (doc' ! ?i) = runs (doc ! ?i)
      @ translation_runs (fst (translate_en2zh E wi (strip (para_text (doc ! ?i)))))"
    by (simp add: none)
  then have r: "\<exists>wi. runs (doc' ! ?i) = runs (doc ! ?i)
      @ translation_runs (fst (translate_en2zh E wi (strip (para_text (doc ! ?i)))))"
    by blast
  from empty show "summary_zh (cands' ! ?j) = []" .
  from none show "summary_runs cands' ?i = []" .
  from r show "\<exists>wi. runs (doc' ! ?i) = runs (doc ! ?i)
      @ translation_runs (fst (translate_en2zh E wi (strip (para_text (doc ! ?i)))))" .
qed

theorem blank_text_never_annotated_witness:
  "translate_en2zh (blank_summaries (demo_env tr_ok)) [] (py ''   '') = ([], [])
   \<and> (\<exists>doc' w'. process_docx (blank_summaries (demo_env tr_ok)) [] demo_doc = (Inr doc', w')
        \<and> doc' ! 2 = demo_doc ! 2
        \<and> runs (doc' ! 0) = runs (demo_doc ! 0) @ [translation_run (py ''zh:'' @ words 41)])"
proof -
  let ?E = "blank_summaries (demo_env tr_ok)"
  let ?c = "\<lparr>idx = 0, truncated = words 41, summary_zh = []\<rparr>"
  let ?w1 = "[SummarizeCall [words 41] (Inr [py ''  ''])]"
  have b: "batch_summarize ?E (collect_candidates ?E demo_doc) [] = (Inr [?c], ?w1)"
    by (simp add: collect_blank demo_collect demo_batch_blank)
  from process_docx_reaches_save[OF b] obtain doc' w' where
    run: "process_docx ?E [] demo_doc = (Inr doc', w')"
    by blast
  note T = blank_text_never_annotated[of "py ''   ''" ?E "[]" demo_doc doc' w']
  have sp: "\<forall>c \<in> set (py ''   ''). is_space c" by (simp add: py_def is_space_def)
  from T sp have t1: "translate_en2zh ?E [] (py ''   '') = ([], [])" by blast
  from T run have paras: "\<forall>i < length demo_doc.
      (\<forall>c \<in> set (para_text (demo_doc ! i)). is_space c) \<longrightarrow> doc' ! i = demo_doc ! i"
    by blast
  have "2 < length demo_doc" "\<forall>c \<in> set (para_text (demo_doc ! 2)). is_space c"
    by (simp_all add: demo_doc_def para_text_plain py_def is_space_def)
  with paras have t2: "doc' ! 2 = demo_doc ! 2" by blast
  from T run have cand: "\<forall>cands' w1 b k.
           batch_summarize ?E (collect_candidates ?E demo_doc) [] = (Inr cands', w1)
           \<and> k < 4 \<and> 4 * b + k < length cands'
           \<and> k < length (summarize_outputs (drop (length ([]::world)) w1) ! b)
           \<and> (\<forall>c \<in> set (summarize_outputs (drop (length ([]::world)) w1) ! b ! k). is_space c)
         \<longrightarrow> summary_zh (cands' ! (4 * b + k)) = []
           \<and> summary_runs cands' (idx (cands' ! (4 * b + k))) = []
           \<and> (\<exists>wi. runs (doc' ! idx (cands' ! (4 * b + k))) =
                  runs (demo_doc ! idx (cands' ! (4 * b + k)))
                  @ translation_runs (fst (translate_en2zh ?E wi
                      (strip (para_text (demo_doc ! idx (cands' ! (4 * b + k))))))))"
    by blast
  have hyp: "batch_summarize ?E (collect_candidates ?E demo_doc) [] = (Inr [?c], ?w1)
           \<and> (0::nat) < 4 \<and> 4 * 0 + 0 < length [?c]
           \<and> 0 < length (summarize_outputs (drop (length ([]::world)) ?w1) ! 0)
           \<and> (\<forall>c \<in> set (summarize_outputs (drop (length ([]::world)) ?w1) ! 0 ! 0). is_space c)"
    using b by (simp add: py_def is_space_def)
  from cand[rule_format, OF hyp] obtain wi where
    "runs (doc' ! idx ([?c] ! (4 * 0 + 0))) = runs (demo_doc ! idx ([?c] ! (4 * 0 + 0)))
       @ translation_runs (fst (translate_en2zh ?E wi
            (strip (para_text (demo_doc ! idx ([?c] ! (4 * 0 + 0)))))))"
    by blast
  then have "runs (doc' ! 0) = runs (demo_doc ! 0)
       @ translation_runs (fst (translate_en2zh ?E wi (strip (para_text (demo_doc ! 0)))))"
    by simp
  moreover have "strip (para_text (demo_doc ! 0)) = words 41"
    by (simp add: demo_doc_def para_text_plain strip_words)
  moreover have "translation_runs (fst (translate_en2zh ?E wi (words 41))) =
      [translation_run (py ''zh:'' @ words 41)]"
    by (simp add: translate_blank_env translate_ok strip_words words_not_blank
        translation_runs_def)
  ultimately have t3: "runs (doc' ! 0) = runs (demo_doc ! 0)
       @ [translation_run (py ''zh:'' @ words 41)]"
    by simp
  show ?thesis
    by (intro conjI exI[of _ doc'] exI[of _ w']) (rule t1 run t2 t3)+
qed

end
